theory Spec2Isabelle
  imports Main "HOL-Library.AList" "HOL-Library.Sublist"
begin

section \<open>Python values, errors and dictionaries\<close>

text \<open>
  The program is \<^verbatim>\<open>src/pac.py\<close>, read with the semantics of Python 3.
  A Python \<^verbatim>\<open>str\<close> is modelled as a \<open>string\<close>; the model covers the code points
  below 256 (one \<open>char\<close> each).  Every exception the modelled code can raise is a
  value of \<open>error\<close>, and a function that can raise returns \<open>error + 'a\<close>.
  \<^verbatim>\<open>UnicodeDecodeError\<close> is what \<^verbatim>\<open>bytes.decode('utf-8')\<close> raises.
\<close>

datatype error =
    TypeError
  | AttributeError
  | IndexError
  | KeyError string
  | ValueError string
  | IOError
  | UnicodeDecodeError

text \<open>
  The values an attribute of a \<^verbatim>\<open>Package\<close> can hold: \<^verbatim>\<open>None\<close>, a \<^verbatim>\<open>str\<close>, or a tuple
  of \<^verbatim>\<open>str\<close>.
\<close>

datatype pyval = PNone | PStr string | PTuple "string list"

text \<open>
  A \<^verbatim>\<open>dict\<close> is an association list with distinct keys in insertion order:
  \<open>map_of\<close> reads a key, \<open>AList.update\<close> stores one (in place when the
  key exists, at the end otherwise), and \<^verbatim>\<open>items()\<close> is the list itself.
\<close>

type_synonym ('k, 'v) dict = "('k \<times> 'v) list"

section \<open>The record parser: \<^verbatim>\<open>alpm_parse\<close>\<close>

text \<open>\<^verbatim>\<open>str.isspace\<close> on the code points below 256.\<close>

definition isspace :: "char \<Rightarrow> bool" where
  "isspace c = (c \<in> set [CHR 0x09, CHR 0x0A, CHR 0x0B, CHR 0x0C, CHR 0x0D,
                          CHR 0x1C, CHR 0x1D, CHR 0x1E, CHR 0x1F, CHR 0x20,
                          CHR 0x85, CHR 0xA0])"

text \<open>\<^verbatim>\<open>str.strip()\<close>: leading and trailing whitespace removed.\<close>

definition strip :: "string \<Rightarrow> string" where
  "strip s = rev (dropWhile isspace (rev (dropWhile isspace s)))"

text \<open>
  \<^verbatim>\<open>str.lower()\<close> on the code points below 256: \<^verbatim>\<open>A\<close> to \<^verbatim>\<open>Z\<close>, and
  \<^verbatim>\<open>0xC0\<close> to \<^verbatim>\<open>0xDE\<close> without \<^verbatim>\<open>0xD7\<close>, move up by 32.
\<close>

definition upper_chars :: "char list" where
  "upper_chars = ''ABCDEFGHIJKLMNOPQRSTUVWXYZ'' @
     [CHR 0xC0, CHR 0xC1, CHR 0xC2, CHR 0xC3, CHR 0xC4, CHR 0xC5, CHR 0xC6, CHR 0xC7,
      CHR 0xC8, CHR 0xC9, CHR 0xCA, CHR 0xCB, CHR 0xCC, CHR 0xCD, CHR 0xCE, CHR 0xCF,
      CHR 0xD0, CHR 0xD1, CHR 0xD2, CHR 0xD3, CHR 0xD4, CHR 0xD5, CHR 0xD6,
      CHR 0xD8, CHR 0xD9, CHR 0xDA, CHR 0xDB, CHR 0xDC, CHR 0xDD, CHR 0xDE]"

definition lower_chars :: "char list" where
  "lower_chars = ''abcdefghijklmnopqrstuvwxyz'' @
     [CHR 0xE0, CHR 0xE1, CHR 0xE2, CHR 0xE3, CHR 0xE4, CHR 0xE5, CHR 0xE6, CHR 0xE7,
      CHR 0xE8, CHR 0xE9, CHR 0xEA, CHR 0xEB, CHR 0xEC, CHR 0xED, CHR 0xEE, CHR 0xEF,
      CHR 0xF0, CHR 0xF1, CHR 0xF2, CHR 0xF3, CHR 0xF4, CHR 0xF5, CHR 0xF6,
      CHR 0xF8, CHR 0xF9, CHR 0xFA, CHR 0xFB, CHR 0xFC, CHR 0xFD, CHR 0xFE]"

definition lower_char :: "char \<Rightarrow> char" where
  "lower_char c = (case map_of (zip upper_chars lower_chars) c of None \<Rightarrow> c | Some l \<Rightarrow> l)"

definition lower :: "string \<Rightarrow> string" where
  "lower s = map lower_char s"

text \<open>
  A line of the file, as \<^verbatim>\<open>file.readlines()\<close> yields it, is a sequence of bytes.
  The program does one thing with it: \<^verbatim>\<open>line.decode('utf-8')\<close>.  So a line stands in
  the model for the outcome of that call: \<open>Utf8 s\<close> when the bytes are the UTF-8
  encoding of the \<^verbatim>\<open>str\<close> \<open>s\<close>, and \<open>NotUtf8\<close> when they are not valid UTF-8 and
  the call raises \<^verbatim>\<open>UnicodeDecodeError\<close>.
\<close>

datatype rawline = Utf8 string | NotUtf8

definition decode :: "rawline \<Rightarrow> error + string" where
  "decode raw = (case raw of Utf8 s \<Rightarrow> Inr s | NotUtf8 \<Rightarrow> Inl UnicodeDecodeError)"

text \<open>
  The mapping \<^verbatim>\<open>alpm_parse\<close> builds.  Its keys are the values of \<^verbatim>\<open>last_key\<close>:
  \<^verbatim>\<open>None\<close> or a \<^verbatim>\<open>str\<close>.
\<close>

type_synonym entries = "(string option, string list) dict"

text \<open>
  The loop of \<^verbatim>\<open>alpm_parse\<close> over \<^verbatim>\<open>file.readlines()\<close>, with the loop variables
  \<^verbatim>\<open>last_key\<close> and \<^verbatim>\<open>entries\<close>.  Each line is decoded when its turn comes, and
  the first line that does not decode ends the loop with the exception.
  \<^verbatim>\<open>line[1:-1]\<close> is \<open>butlast (tl line)\<close>;
  \<^verbatim>\<open>entries.get(last_key, tuple()) + value\<close> appends the line to the values stored
  so far.
\<close>

fun alpm_loop :: "rawline list \<Rightarrow> string option \<Rightarrow> entries \<Rightarrow> error + entries" where
  "alpm_loop [] last_key entries = Inr entries"
| "alpm_loop (raw # rest) last_key entries =
     (case decode raw of
        Inl e \<Rightarrow> Inl e
      | Inr s \<Rightarrow>
          (let line = strip s in
           if line = [] then alpm_loop rest last_key entries
           else if hd line = CHR ''%'' \<and> last line = CHR ''%''
           then alpm_loop rest (Some (lower (butlast (tl line)))) entries
           else alpm_loop rest last_key
                  (AList.update last_key
                     ((case map_of entries last_key of None \<Rightarrow> [] | Some vs \<Rightarrow> vs) @ [line])
                     entries)))"

definition alpm_parse :: "rawline list \<Rightarrow> error + entries" where
  "alpm_parse file = alpm_loop file None []"

section \<open>Packages\<close>

text \<open>
  \<^verbatim>\<open>Package.__slots__\<close>.  The class has no \<^verbatim>\<open>__dict__\<close>, so \<^verbatim>\<open>setattr\<close> stores
  under the names of this list only.  With a name that is not a \<^verbatim>\<open>str\<close> (here:
  \<^verbatim>\<open>None\<close>) it raises \<^verbatim>\<open>TypeError\<close>.  With the name \<^verbatim>\<open>__class__\<close>, the one data
  descriptor that \<^verbatim>\<open>object\<close> gives every instance, it raises \<^verbatim>\<open>TypeError\<close> too,
  since the value is a \<^verbatim>\<open>str\<close> or a tuple and not a class.  With any other name
  (unknown, or a read-only attribute of the class such as a method) it raises
  \<^verbatim>\<open>AttributeError\<close>.
\<close>

definition slots :: "string list" where
  "slots = [''filename'', ''name'', ''version'',
            ''desc'', ''csize'', ''isize'', ''md5sum'',
            ''sha256sum'', ''pgpsig'', ''url'', ''license'',
            ''arch'', ''builddate'', ''packager'', ''replaces'', ''groups'',
            ''base'',
            ''depends'', ''makedepends'', ''checkdepends'', ''optdepends'',
            ''conflicts'', ''provides'',
            ''remote_url'', ''local_path'']"

text \<open>
  The attributes of a \<^verbatim>\<open>Package\<close> are written by computed name
  (\<^verbatim>\<open>setattr(self, k, v)\<close>), so an object is the function from attribute name to
  value.  Only names of \<open>slots\<close> are ever written or read.
\<close>

type_synonym Package = "string \<Rightarrow> pyval"

definition setattr :: "Package \<Rightarrow> string option \<Rightarrow> pyval \<Rightarrow> error + Package" where
  "setattr self k v =
     (case k of
        None \<Rightarrow> Inl TypeError
      | Some a \<Rightarrow>
          if a \<in> set slots then Inr (self(a := v))
          else if a = ''__class__'' then Inl TypeError
          else Inl AttributeError)"

text \<open>
  \<^verbatim>\<open>Package.__init__(name)\<close>: every slot \<^verbatim>\<open>None\<close>, then the seven sequence
  attributes the empty tuple, then the name.  (The only call of the program is
  \<^verbatim>\<open>Package(name)\<close>, with \<^verbatim>\<open>descbuf\<close> and \<^verbatim>\<open>depsbuf\<close> left \<^verbatim>\<open>None\<close>.)
\<close>

definition Package_init :: "string \<Rightarrow> Package" where
  "Package_init nm =
     (\<lambda>a. if a = ''name'' then PStr nm
          else if a \<in> set [''groups'', ''makedepends'', ''checkdepends'', ''depends'',
                            ''optdepends'', ''conflicts'', ''provides'']
          then PTuple [] else PNone)"

text \<open>
  The loop of \<^verbatim>\<open>Package.parse_desc\<close> over the items of the parsed mapping.
  \<^verbatim>\<open>v[0]\<close> is evaluated before \<^verbatim>\<open>setattr\<close> is called.
\<close>

fun parse_desc_items :: "Package \<Rightarrow> entries \<Rightarrow> error + Package" where
  "parse_desc_items self [] = Inr self"
| "parse_desc_items self ((k, v) # rest) =
     (if k = Some ''groups'' then
        (case setattr self k (PTuple v) of
           Inl e \<Rightarrow> Inl e
         | Inr self' \<Rightarrow> parse_desc_items self' rest)
      else
        (case v of
           [] \<Rightarrow> Inl IndexError
         | v0 # _ \<Rightarrow>
             (case setattr self k (PStr v0) of
                Inl e \<Rightarrow> Inl e
              | Inr self' \<Rightarrow> parse_desc_items self' rest)))"

definition parse_desc :: "Package \<Rightarrow> rawline list \<Rightarrow> error + Package" where
  "parse_desc self descbuf =
     (case alpm_parse descbuf of
        Inl e \<Rightarrow> Inl e
      | Inr entries \<Rightarrow> parse_desc_items self entries)"

text \<open>
  \<^verbatim>\<open>re.match('[^><=:]+', e).group(0)\<close>: the greedy match of the negated class at
  the start of \<open>e\<close>, where \<open>excluded\<close> holds the four characters the class
  excludes.  When the first character is excluded (or \<open>e\<close> is empty) there is
  no match, \<^verbatim>\<open>re.match\<close> returns \<^verbatim>\<open>None\<close>, and \<^verbatim>\<open>.group\<close> raises
  \<^verbatim>\<open>AttributeError\<close>.
\<close>

definition excluded :: "char set" where
  "excluded = set ''><=:''"

definition bare_name :: "string \<Rightarrow> string" where
  "bare_name e = takeWhile (\<lambda>c. c \<notin> excluded) e"

definition re_match_group :: "string \<Rightarrow> error + string" where
  "re_match_group e = (if bare_name e = [] then Inl AttributeError else Inr (bare_name e))"

text \<open>The generator \<^verbatim>\<open>tuple(re.match(...).group(0) for e in v)\<close>.\<close>

fun strip_versions :: "string list \<Rightarrow> error + string list" where
  "strip_versions [] = Inr []"
| "strip_versions (e # es) =
     (case re_match_group e of
        Inl err \<Rightarrow> Inl err
      | Inr b \<Rightarrow> (case strip_versions es of Inl err \<Rightarrow> Inl err | Inr bs \<Rightarrow> Inr (b # bs)))"

text \<open>The loop of \<^verbatim>\<open>Package.parse_deps\<close> over the items of the parsed mapping.\<close>

fun parse_deps_items :: "Package \<Rightarrow> entries \<Rightarrow> error + Package" where
  "parse_deps_items self [] = Inr self"
| "parse_deps_items self ((k, v) # rest) =
     (case strip_versions v of
        Inl e \<Rightarrow> Inl e
      | Inr v' \<Rightarrow>
          (case setattr self k (PTuple v') of
             Inl e \<Rightarrow> Inl e
           | Inr self' \<Rightarrow> parse_deps_items self' rest))"

definition parse_deps :: "Package \<Rightarrow> rawline list \<Rightarrow> error + Package" where
  "parse_deps self depsbuf =
     (case alpm_parse depsbuf of
        Inl e \<Rightarrow> Inl e
      | Inr entries \<Rightarrow> parse_deps_items self entries)"

section \<open>Strings and paths\<close>

text \<open>\<^verbatim>\<open>s.split(sep)\<close> for a one-character separator: never the empty list.\<close>

fun split_on :: "char \<Rightarrow> string \<Rightarrow> string list" where
  "split_on sep [] = [[]]"
| "split_on sep (c # cs) =
     (if c = sep then [] # split_on sep cs
      else (case split_on sep cs of [] \<Rightarrow> [[c]] | w # ws \<Rightarrow> (c # w) # ws))"

text \<open>\<^verbatim>\<open>sep.join(parts)\<close>.\<close>

fun join :: "string \<Rightarrow> string list \<Rightarrow> string" where
  "join sep [] = []"
| "join sep [x] = x"
| "join sep (x # y # ys) = x @ sep @ join sep (y # ys)"

text \<open>
  \<^verbatim>\<open>'-'.join(finfo.name.split('-')[:-2])\<close>: the member's name without its last two
  dash-separated parts (the slice is empty when there are fewer than two).
\<close>

definition package_name :: "string \<Rightarrow> string" where
  "package_name path = join ''-'' (butlast (butlast (split_on CHR ''-'' path)))"

text \<open>\<^verbatim>\<open>os.path.basename\<close>: what follows the last slash.\<close>

definition basename :: "string \<Rightarrow> string" where
  "basename path = rev (takeWhile (\<lambda>c. c \<noteq> CHR ''/'') (rev path))"

text \<open>
  \<^verbatim>\<open>os.path.join(a, b)\<close> of \<^verbatim>\<open>posixpath\<close>, for a \<^verbatim>\<open>str\<close> \<open>a\<close>; a second
  argument that is not a \<^verbatim>\<open>str\<close> raises \<^verbatim>\<open>TypeError\<close>.
\<close>

definition path_join :: "string \<Rightarrow> pyval \<Rightarrow> error + string" where
  "path_join a b =
     (case b of
        PStr s \<Rightarrow>
          if s \<noteq> [] \<and> hd s = CHR ''/'' then Inr s
          else if a = [] \<or> last a = CHR ''/'' then Inr (a @ s)
          else Inr (a @ ''/'' @ s)
      | _ \<Rightarrow> Inl TypeError)"

text \<open>\<^verbatim>\<open>os.path.join(a, *parts)\<close> with \<^verbatim>\<open>str\<close> arguments only.\<close>

fun path_join_all :: "string \<Rightarrow> string list \<Rightarrow> string" where
  "path_join_all a [] = a"
| "path_join_all a (b # bs) =
     path_join_all
       (if b \<noteq> [] \<and> hd b = CHR ''/'' then b
        else if a = [] \<or> last a = CHR ''/'' then a @ b
        else a @ ''/'' @ b) bs"

text \<open>
  \<^verbatim>\<open>s.replace(old, new)\<close> for a non-empty \<open>old\<close> (the program replaces
  \<^verbatim>\<open>$repo\<close> and \<^verbatim>\<open>$arch\<close>): occurrences from the left, not overlapping.
\<close>

function replace :: "string \<Rightarrow> string \<Rightarrow> string \<Rightarrow> string" where
  "replace old new [] = []"
| "replace old new (c # cs) =
     (if old \<noteq> [] \<and> prefix old (c # cs)
      then new @ replace old new (drop (length old) (c # cs))
      else c # replace old new cs)"
  by pat_completeness auto
termination
  by (relation "measure (\<lambda>(old, new, s). length s)") auto

section \<open>The store of Package objects\<close>

text \<open>
  A Python set of \<^verbatim>\<open>Package\<close> objects compares them by identity (the class defines
  neither \<^verbatim>\<open>__eq__\<close> nor \<^verbatim>\<open>__hash__\<close>), and \<^verbatim>\<open>parse_desc\<close> and \<^verbatim>\<open>parse_deps\<close>
  mutate the object a catalog holds.  So objects live in a store: \<open>objs h i\<close> is the
  object with identity \<open>i\<close>, and \<open>next_oid h\<close> is the identity the next
  \<^verbatim>\<open>Package(...)\<close> gets.
\<close>

type_synonym oid = nat

record heap =
  objs :: "oid \<Rightarrow> Package"
  next_oid :: oid

definition new_Package :: "heap \<Rightarrow> string \<Rightarrow> oid \<times> heap" where
  "new_Package h nm =
     (next_oid h, h\<lparr>objs := (objs h)(next_oid h := Package_init nm), next_oid := Suc (next_oid h)\<rparr>)"

text \<open>
  Iterating an attribute value (\<^verbatim>\<open>for g in pkg.groups\<close>): a tuple yields its
  elements, a \<^verbatim>\<open>str\<close> its characters as strings of length one, and \<^verbatim>\<open>None\<close>
  raises \<^verbatim>\<open>TypeError\<close>.
\<close>

definition iter :: "pyval \<Rightarrow> error + string list" where
  "iter v =
     (case v of
        PNone \<Rightarrow> Inl TypeError
      | PStr s \<Rightarrow> Inr (map (\<lambda>c. [c]) s)
      | PTuple xs \<Rightarrow> Inr xs)"

section \<open>Catalogs: \<^verbatim>\<open>Repo\<close>\<close>

text \<open>
  The slots of \<^verbatim>\<open>Repo\<close>.  \<open>packages\<close> maps a package name to its object;
  \<open>groups\<close> and \<open>provides\<close> are the \<^verbatim>\<open>defaultdict(list)\<close> indices of package names.
\<close>

record Repo =
  name :: string
  arch :: string
  local_path :: string
  server :: string
  packages :: "(string, oid) dict"
  groups :: "(string, string list) dict"
  provides :: "(string, string list) dict"
  mirrored_packages :: "(string, oid) dict"

text \<open>
  A member of the database archive, as the loop of \<^verbatim>\<open>initialize_db\<close> reads it:
  \<^verbatim>\<open>finfo.name\<close>, \<^verbatim>\<open>finfo.isdir()\<close>, and for a file the lines of
  \<^verbatim>\<open>dbfile.extractfile(finfo)\<close>.
\<close>

record tarinfo =
  ti_name :: string
  ti_isdir :: bool
  ti_lines :: "rawline list"

text \<open>
  What \<^verbatim>\<open>get_db_file\<close> and \<^verbatim>\<open>tarfile.open\<close> deliver for the repository and
  architecture of a catalog: the members of the archive, or the error raised while
  the file is fetched or opened.
\<close>

type_synonym db_source = "string \<Rightarrow> string \<Rightarrow> error + tarinfo list"

text \<open>\<^verbatim>\<open>d[k].append(x)\<close> on a \<^verbatim>\<open>defaultdict(list)\<close>.\<close>

definition dd_append :: "('k, 'v list) dict \<Rightarrow> 'k \<Rightarrow> 'v \<Rightarrow> ('k, 'v list) dict" where
  "dd_append d k x = AList.update k ((case map_of d k of None \<Rightarrow> [] | Some xs \<Rightarrow> xs) @ [x]) d"

text \<open>The first loop of \<^verbatim>\<open>initialize_db\<close>, over the members of the archive.\<close>

fun load_entries :: "Repo \<Rightarrow> heap \<Rightarrow> tarinfo list \<Rightarrow> error + Repo \<times> heap" where
  "load_entries self h [] = Inr (self, h)"
| "load_entries self h (finfo # rest) =
     (let nm = package_name (ti_name finfo);
          path = ti_name finfo
      in if ti_isdir finfo then
           (case new_Package h nm of
              (i, h') \<Rightarrow>
                load_entries (self\<lparr>packages := AList.update nm i (packages self)\<rparr>) h' rest)
         else
           (case map_of (packages self) nm of
              None \<Rightarrow> Inl (KeyError nm)
            | Some i \<Rightarrow>
                (let filename = basename path
                 in if filename = ''desc'' then
                      (case parse_desc (objs h i) (ti_lines finfo) of
                         Inl e \<Rightarrow> Inl e
                       | Inr package \<Rightarrow>
                           (case path_join (server self) (package ''filename'') of
                              Inl e \<Rightarrow> Inl e
                            | Inr url \<Rightarrow>
                                (case path_join (local_path self) (package ''filename'') of
                                   Inl e \<Rightarrow> Inl e
                                 | Inr local \<Rightarrow>
                                     load_entries self
                                       (h\<lparr>objs := (objs h)
                                           (i := package(''remote_url'' := PStr url,
                                                         ''local_path'' := PStr local))\<rparr>)
                                       rest)))
                    else if filename = ''depends'' then
                      (case parse_deps (objs h i) (ti_lines finfo) of
                         Inl e \<Rightarrow> Inl e
                       | Inr package \<Rightarrow>
                           load_entries self (h\<lparr>objs := (objs h)(i := package)\<rparr>) rest)
                    else load_entries self h rest)))"

text \<open>
  The second loop of \<^verbatim>\<open>initialize_db\<close>, over \<^verbatim>\<open>self.packages.items()\<close>: every
  group and every provided name of a package gets the package's name appended.
\<close>

fun index_packages :: "heap \<Rightarrow> (string, oid) dict \<Rightarrow> Repo \<Rightarrow> error + Repo" where
  "index_packages h [] self = Inr self"
| "index_packages h ((nm, i) # rest) self =
     (case iter (objs h i ''groups'') of
        Inl e \<Rightarrow> Inl e
      | Inr gs \<Rightarrow>
          (let self1 = self\<lparr>groups := fold (\<lambda>g d. dd_append d g nm) gs (groups self)\<rparr>
           in case iter (objs h i ''provides'') of
                Inl e \<Rightarrow> Inl e
              | Inr ps \<Rightarrow>
                  index_packages h rest
                    (self1\<lparr>provides := fold (\<lambda>p d. dd_append d p nm) ps (provides self1)\<rparr>)))"

definition initialize_db :: "db_source \<Rightarrow> Repo \<Rightarrow> heap \<Rightarrow> error + Repo \<times> heap" where
  "initialize_db db self h =
     (case db (name self) (arch self) of
        Inl e \<Rightarrow> Inl e
      | Inr dbfile \<Rightarrow>
          (case load_entries self h dbfile of
             Inl e \<Rightarrow> Inl e
           | Inr (self1, h1) \<Rightarrow>
               (case index_packages h1 (packages self1) self1 of
                  Inl e \<Rightarrow> Inl e
                | Inr self2 \<Rightarrow> Inr (self2, h1))))"

text \<open>
  \<^verbatim>\<open>Repo.__init__(name, arch, server, repo_root)\<close>.  The \<^verbatim>\<open>os.makedirs\<close> call is
  wrapped in a bare \<^verbatim>\<open>except\<close> and leaves no trace in the object.
\<close>

definition Repo_init :: "db_source \<Rightarrow> heap \<Rightarrow> string \<Rightarrow> string \<Rightarrow> string \<Rightarrow> string \<Rightarrow> error + Repo \<times> heap" where
  "Repo_init db h nm ar srv repo_root =
     initialize_db db
       \<lparr>name = nm, arch = ar,
        local_path = path_join_all repo_root [nm, ''os'', ar],
        server = replace ''$arch'' ar (replace ''$repo'' nm srv),
        packages = [], groups = [], provides = [], mirrored_packages = []\<rparr> h"

text \<open>\<^verbatim>\<open>Repo.__contains__\<close>: the name is a key of one of the three dictionaries.\<close>

definition Repo_contains :: "Repo \<Rightarrow> string \<Rightarrow> bool" where
  "Repo_contains self pkgname =
     (pkgname \<in> fst ` set (packages self) \<or> pkgname \<in> fst ` set (provides self)
      \<or> pkgname \<in> fst ` set (groups self))"

section \<open>The resolver: \<^verbatim>\<open>Mirror\<close>\<close>

text \<open>
  \<^verbatim>\<open>Mirror.repos\<close>, keyed by repository name and architecture.  (The slot
  \<^verbatim>\<open>mirrored\<close> is declared and never assigned.)
\<close>

record Mirror =
  repos :: "(string \<times> string, Repo) dict"

text \<open>
  The loop of \<^verbatim>\<open>Mirror.__init__\<close> over \<^verbatim>\<open>product(repo_names, archs)\<close>;
  \<^verbatim>\<open>Repo(name, arch, server)\<close> leaves \<^verbatim>\<open>repo_root\<close> at its default, the empty
  string.
\<close>

fun Mirror_loop ::
  "db_source \<Rightarrow> string \<Rightarrow> (string \<times> string) list \<Rightarrow> Mirror \<Rightarrow> heap \<Rightarrow> error + Mirror \<times> heap" where
  "Mirror_loop db srv [] self h = Inr (self, h)"
| "Mirror_loop db srv ((nm, ar) # rest) self h =
     (case Repo_init db h nm ar srv [] of
        Inl e \<Rightarrow> Inl e
      | Inr (repo, h') \<Rightarrow>
          Mirror_loop db srv rest (self\<lparr>repos := AList.update (nm, ar) repo (repos self)\<rparr>) h')"

definition Mirror_init ::
  "db_source \<Rightarrow> heap \<Rightarrow> string list \<Rightarrow> string \<Rightarrow> string list \<Rightarrow> error + Mirror \<times> heap" where
  "Mirror_init db h repo_names srv archs =
     Mirror_loop db srv (List.product repo_names archs) \<lparr>repos = []\<rparr> h"

text \<open>
  The generator \<^verbatim>\<open>repo.packages[p] for p in found_packages\<close>: a name that is not a
  key raises \<^verbatim>\<open>KeyError\<close>.
\<close>

fun lookup_all :: "(string, oid) dict \<Rightarrow> string list \<Rightarrow> error + oid list" where
  "lookup_all pkgs [] = Inr []"
| "lookup_all pkgs (p # ps) =
     (case map_of pkgs p of
        None \<Rightarrow> Inl (KeyError p)
      | Some i \<Rightarrow> (case lookup_all pkgs ps of Inl e \<Rightarrow> Inl e | Inr is \<Rightarrow> Inr (i # is)))"

text \<open>
  The \<^verbatim>\<open>if\<close>/\<^verbatim>\<open>elif\<close> chain of \<^verbatim>\<open>resolve_name\<close> for one catalog: the new value of
  \<^verbatim>\<open>found_packages\<close>, which keeps its old value when no branch is taken.
\<close>

definition find_in_repo :: "Repo \<Rightarrow> string \<Rightarrow> string list option \<Rightarrow> string list option" where
  "find_in_repo repo pkgname found_packages =
     (if pkgname \<in> fst ` set (packages repo) then Some [pkgname]
      else case map_of (provides repo) pkgname of
             Some ps \<Rightarrow> Some ps
           | None \<Rightarrow>
               (case map_of (groups repo) pkgname of
                  Some gs \<Rightarrow> Some gs
                | None \<Rightarrow> found_packages))"

text \<open>
  The loop of \<^verbatim>\<open>resolve_name\<close> over \<^verbatim>\<open>self.repos.values()\<close>, with the loop
  variables \<^verbatim>\<open>found_packages\<close> and \<^verbatim>\<open>packages\<close> (a set of objects).
  \<^verbatim>\<open>if found_packages:\<close> holds for a non-empty list only.
\<close>

fun resolve_name_loop ::
  "Repo list \<Rightarrow> string \<Rightarrow> string list option \<Rightarrow> oid set \<Rightarrow> error + oid set" where
  "resolve_name_loop [] pkgname found_packages pkgs = Inr pkgs"
| "resolve_name_loop (repo # rest) pkgname found_packages pkgs =
     (case find_in_repo repo pkgname found_packages of
        Some (p # ps) \<Rightarrow>
          (case lookup_all (packages repo) (p # ps) of
             Inl e \<Rightarrow> Inl e
           | Inr is \<Rightarrow> resolve_name_loop rest pkgname None (pkgs \<union> set is))
      | found \<Rightarrow> resolve_name_loop rest pkgname found pkgs)"

definition resolve_name :: "Mirror \<Rightarrow> string \<Rightarrow> bool \<Rightarrow> error + oid set" where
  "resolve_name self pkgname important =
     (case resolve_name_loop (map snd (repos self)) pkgname None {} of
        Inl e \<Rightarrow> Inl e
      | Inr pkgs \<Rightarrow>
          if pkgs \<noteq> {} \<or> \<not> important then Inr pkgs
          else Inl (ValueError (pkgname @ '' not found in any repo'')))"

text \<open>
  The order in which Python iterates a set is not specified.  The model takes it as
  a parameter: an \<open>order\<close> lists a set, and may depend on the state of the traversal
  (the queue and the visited set) at the moment the set is iterated.  An order is
  faithful when it lists exactly the elements of every finite set, each once.
\<close>

type_synonym order = "oid list \<times> oid set \<Rightarrow> oid set \<Rightarrow> oid list"

definition faithful :: "order \<Rightarrow> bool" where
  "faithful ord = (\<forall>c S. finite S \<longrightarrow> set (ord c S) = S \<and> distinct (ord c S))"

text \<open>
  The two inner loops of \<^verbatim>\<open>resolve_deps\<close>:
  \<^verbatim>\<open>for d_name in ...: for d in self.resolve_name(d_name, important): packages.append(d)\<close>.
\<close>

fun enqueue ::
  "order \<Rightarrow> Mirror \<Rightarrow> bool \<Rightarrow> oid set \<Rightarrow> string list \<Rightarrow> oid list \<Rightarrow> error + oid list" where
  "enqueue ord self important known [] queue = Inr queue"
| "enqueue ord self important known (d_name # rest) queue =
     (case resolve_name self d_name important of
        Inl e \<Rightarrow> Inl e
      | Inr ds \<Rightarrow> enqueue ord self important known rest (queue @ ord (queue, known) ds))"

text \<open>
  The body of the \<^verbatim>\<open>while\<close> loop for a package \<open>p\<close> that was not visited yet, after
  \<^verbatim>\<open>known_packages.add(p)\<close>: the queue with the dependencies appended.
\<close>

definition visit ::
  "order \<Rightarrow> Mirror \<Rightarrow> heap \<Rightarrow> bool \<Rightarrow> oid \<Rightarrow> oid set \<Rightarrow> oid list \<Rightarrow> error + oid list" where
  "visit ord self h optdepends p known queue =
     (case iter (objs h p ''depends'') of
        Inl e \<Rightarrow> Inl e
      | Inr ds \<Rightarrow>
          (case enqueue ord self True known ds queue of
             Inl e \<Rightarrow> Inl e
           | Inr queue1 \<Rightarrow>
               if optdepends then
                 (case iter (objs h p ''optdepends'') of
                    Inl e \<Rightarrow> Inl e
                  | Inr os \<Rightarrow> enqueue ord self False known os queue1)
               else Inr queue1))"

text \<open>
  The \<^verbatim>\<open>while packages:\<close> loop of \<^verbatim>\<open>resolve_deps\<close>, with the deque and
  \<^verbatim>\<open>known_packages\<close>.  Not returning is the value \<open>None\<close>.
\<close>

partial_function (option) resolve_deps_loop ::
  "order \<Rightarrow> Mirror \<Rightarrow> heap \<Rightarrow> bool \<Rightarrow> oid list \<Rightarrow> oid set \<Rightarrow> (error + oid set) option" where
  "resolve_deps_loop ord self h optdepends queue known =
     (case queue of
        [] \<Rightarrow> Some (Inr known)
      | p # rest \<Rightarrow>
          if p \<in> known then resolve_deps_loop ord self h optdepends rest known
          else
            (case visit ord self h optdepends p (insert p known) rest of
               Inl e \<Rightarrow> Some (Inl e)
             | Inr queue' \<Rightarrow>
                 resolve_deps_loop ord self h optdepends queue' (insert p known)))"

text \<open>
  \<^verbatim>\<open>resolve_deps(packages, optdepends)\<close>: \<open>pkgs\<close> is what \<^verbatim>\<open>deque(packages)\<close> holds,
  and the result is \<^verbatim>\<open>tuple(known_packages)\<close>.
\<close>

definition resolve_deps ::
  "order \<Rightarrow> Mirror \<Rightarrow> heap \<Rightarrow> oid list \<Rightarrow> bool \<Rightarrow> (error + oid list) option" where
  "resolve_deps ord self h pkgs optdepends =
     (case resolve_deps_loop ord self h optdepends pkgs {} of
        None \<Rightarrow> None
      | Some (Inl e) \<Rightarrow> Some (Inl e)
      | Some (Inr known) \<Rightarrow> Some (Inr (ord ([], known) known)))"

section \<open>The specification's name resolution\<close>

text \<open>
  Written from the words of the specification (section 4.4), to be compared with
  \<open>resolve_name\<close>: the match set of a name in one catalog, in the priority order
  package name, provides index, group index.
\<close>

definition spec_match_set :: "Repo \<Rightarrow> string \<Rightarrow> string list option" where
  "spec_match_set r n =
     (if n \<in> fst ` set (packages r) then Some [n]
      else if n \<in> fst ` set (provides r) then map_of (provides r) n
      else if n \<in> fst ` set (groups r) then map_of (groups r) n
      else None)"

text \<open>
  The packages the match set names in that same catalog, and their union over all
  catalogs (a catalog without a match set contributes nothing).
\<close>

definition spec_contribution :: "Repo \<Rightarrow> string \<Rightarrow> oid set" where
  "spec_contribution r n =
     (case spec_match_set r n of
        None \<Rightarrow> {}
      | Some ns \<Rightarrow> {i. \<exists>p \<in> set ns. map_of (packages r) p = Some i})"

definition spec_resolveName :: "Mirror \<Rightarrow> string \<Rightarrow> oid set" where
  "spec_resolveName m n = (\<Union>r \<in> set (map snd (repos m)). spec_contribution r n)"

section \<open>Invariants\<close>

text \<open>
  What every mapping built by \<open>alpm_loop\<close> satisfies: the keys are distinct, every
  value sequence is non-empty, and no stored line is empty.
\<close>

definition entries_ok :: "entries \<Rightarrow> bool" where
  "entries_ok es = (distinct (map fst es) \<and> (\<forall>(k, v) \<in> set es. v \<noteq> [] \<and> [] \<notin> set v))"


text \<open>The objects a catalog holds, and the objects of all catalogs of a mirror.\<close>

definition oids :: "Repo \<Rightarrow> oid set" where
  "oids r = snd ` set (packages r)"

definition all_oids :: "Mirror \<Rightarrow> oid set" where
  "all_oids m = (\<Union>r \<in> snd ` set (repos m). oids r)"

text \<open>
  An index over the package names \<open>K\<close>: every value sequence is non-empty and names
  members of \<open>K\<close> only.
\<close>

definition index_ok :: "string set \<Rightarrow> (string, string list) dict \<Rightarrow> bool" where
  "index_ok K d = (\<forall>(k, ns) \<in> set d. ns \<noteq> [] \<and> set ns \<subseteq> K)"

text \<open>
  A catalog as \<^verbatim>\<open>Repo.__init__\<close> leaves it: both indices are indices over the keys
  of \<open>packages\<close>, and no object is held under two names.
\<close>

definition repo_ok :: "Repo \<Rightarrow> bool" where
  "repo_ok r =
     (index_ok (fst ` set (packages r)) (groups r)
      \<and> index_ok (fst ` set (packages r)) (provides r)
      \<and> distinct (map snd (packages r)))"

text \<open>No object is held by two catalogs of the list.\<close>

fun disjoint_oids :: "Repo list \<Rightarrow> bool" where
  "disjoint_oids [] = True"
| "disjoint_oids (r # rs) = ((\<forall>r' \<in> set rs. oids r \<inter> oids r' = {}) \<and> disjoint_oids rs)"

text \<open>A mirror as \<^verbatim>\<open>Mirror.__init__\<close> leaves it, with the store it was built in.\<close>

definition mirror_ok :: "Mirror \<Rightarrow> heap \<Rightarrow> bool" where
  "mirror_ok m h =
     ((\<forall>r \<in> snd ` set (repos m). repo_ok r \<and> oids r \<subseteq> {..<next_oid h})
      \<and> disjoint_oids (map snd (repos m)))"

section \<open>Example archives\<close>

text \<open>The store before any \<^verbatim>\<open>Package\<close> is created.\<close>

definition heap0 :: heap where
  "heap0 = \<lparr>objs = (\<lambda>_. Package_init []), next_oid = 0\<rparr>"

text \<open>
  Two repositories.  \<^verbatim>\<open>core\<close> holds \<^verbatim>\<open>bash\<close> (in the group \<^verbatim>\<open>base\<close>, depending on
  \<^verbatim>\<open>glibc\<close>, optionally on a package that does not exist, and providing \<^verbatim>\<open>sh\<close>),
  \<^verbatim>\<open>glibc\<close>, and a package literally named \<^verbatim>\<open>sh\<close> whose dependency does not exist.
  \<^verbatim>\<open>extra\<close> holds another \<^verbatim>\<open>bash\<close>.
\<close>

definition db_main :: db_source where
  "db_main nm ar =
     (if nm = ''core'' then Inr
        [\<lparr>ti_name = ''bash-5.0-1'', ti_isdir = True, ti_lines = []\<rparr>,
         \<lparr>ti_name = ''bash-5.0-1/desc'', ti_isdir = False,
          ti_lines = map Utf8
            [''%FILENAME%'', ''bash-5.0-1.pkg.tar.xz'', [],
             ''%NAME%'', ''bash'', [], ''%GROUPS%'', ''base'', []]\<rparr>,
         \<lparr>ti_name = ''bash-5.0-1/depends'', ti_isdir = False,
          ti_lines = map Utf8
            [''%DEPENDS%'', ''glibc>=2.30'', [],
             ''%OPTDEPENDS%'', ''nonexistent-pkg: not there'', [],
             ''%PROVIDES%'', ''sh'', []]\<rparr>,
         \<lparr>ti_name = ''glibc-2.30-1'', ti_isdir = True, ti_lines = []\<rparr>,
         \<lparr>ti_name = ''glibc-2.30-1/desc'', ti_isdir = False,
          ti_lines = map Utf8
            [''%FILENAME%'', ''glibc-2.30-1.pkg.tar.xz'', [],
             ''%GROUPS%'', ''base'', []]\<rparr>,
         \<lparr>ti_name = ''sh-1.0-1'', ti_isdir = True, ti_lines = []\<rparr>,
         \<lparr>ti_name = ''sh-1.0-1/depends'', ti_isdir = False,
          ti_lines = map Utf8 [''%DEPENDS%'', ''missing-lib'', []]\<rparr>]
      else if nm = ''extra'' then Inr
        [\<lparr>ti_name = ''bash-5.0-1'', ti_isdir = True, ti_lines = []\<rparr>]
      else Inl IOError)"

text \<open>The mirror \<^verbatim>\<open>Mirror.__init__\<close> builds from \<open>db_main\<close>.\<close>

definition core_main :: Repo where
  "core_main =
     \<lparr>name = ''core'', arch = ''x86_64'', local_path = ''core/os/x86_64'',
      server = ''http://mirror/core/os/x86_64'',
      packages = [(''bash'', 0), (''glibc'', 1), (''sh'', 2)],
      groups = [(''base'', [''bash'', ''glibc''])],
      provides = [(''sh'', [''bash''])], mirrored_packages = []\<rparr>"

definition extra_main :: Repo where
  "extra_main =
     \<lparr>name = ''extra'', arch = ''x86_64'', local_path = ''extra/os/x86_64'',
      server = ''http://mirror/extra/os/x86_64'',
      packages = [(''bash'', 3)],
      groups = [], provides = [], mirrored_packages = []\<rparr>"

definition mirror_main :: Mirror where
  "mirror_main =
     \<lparr>repos = [((''core'', ''x86_64''), core_main), ((''extra'', ''x86_64''), extra_main)]\<rparr>"

text \<open>One repository in which \<^verbatim>\<open>a\<close> depends on \<^verbatim>\<open>b\<close> and \<^verbatim>\<open>b\<close> on \<^verbatim>\<open>a\<close>.\<close>

definition db_cycle :: db_source where
  "db_cycle nm ar = Inr
     [\<lparr>ti_name = ''a-1.0-1'', ti_isdir = True, ti_lines = []\<rparr>,
      \<lparr>ti_name = ''a-1.0-1/depends'', ti_isdir = False,
       ti_lines = map Utf8 [''%DEPENDS%'', ''b'']\<rparr>,
      \<lparr>ti_name = ''b-1.0-1'', ti_isdir = True, ti_lines = []\<rparr>,
      \<lparr>ti_name = ''b-1.0-1/depends'', ti_isdir = False,
       ti_lines = map Utf8 [''%DEPENDS%'', ''a'']\<rparr>]"

definition mirror_cycle :: Mirror where
  "mirror_cycle =
     \<lparr>repos = [((''core'', ''x86_64''),
        \<lparr>name = ''core'', arch = ''x86_64'', local_path = ''core/os/x86_64'',
         server = ''http://mirror/core/os/x86_64'',
         packages = [(''a'', 0), (''b'', 1)],
         groups = [], provides = [], mirrored_packages = []\<rparr>)]\<rparr>"

text \<open>An order of set iteration: ascending identities.\<close>

definition ascending :: order where
  "ascending c S = sorted_list_of_set S"

section \<open>Lemmas: dictionaries and the record parser\<close>

lemma set_update_subset: "set (AList.update k v al) \<subseteq> insert (k, v) (set al)"
  by (induction al) auto

lemma entries_ok_update:
  assumes "entries_ok es" "line \<noteq> []"
  shows "entries_ok (AList.update k ((case map_of es k of None \<Rightarrow> [] | Some vs \<Rightarrow> vs) @ [line]) es)"
proof -
  let ?old = "case map_of es k of None \<Rightarrow> [] | Some vs \<Rightarrow> vs"
  have old: "[] \<notin> set ?old"
  proof (cases "map_of es k")
    case None
    then show ?thesis by simp
  next
    case (Some vs)
    then have "(k, vs) \<in> set es" by (rule map_of_SomeD)
    with assms(1) have "[] \<notin> set vs" unfolding entries_ok_def by blast
    with Some show ?thesis by simp
  qed
  have new: "?old @ [line] \<noteq> [] \<and> [] \<notin> set (?old @ [line])"
    using old assms(2) by auto
  have "\<forall>(k', v) \<in> set (AList.update k (?old @ [line]) es). v \<noteq> [] \<and> [] \<notin> set v"
  proof (clarify)
    fix k' v assume "(k', v) \<in> set (AList.update k (?old @ [line]) es)"
    then have "(k', v) = (k, ?old @ [line]) \<or> (k', v) \<in> set es"
      using set_update_subset [of k "?old @ [line]" es] by blast
    then show "v \<noteq> [] \<and> [] \<notin> set v"
    proof
      assume "(k', v) = (k, ?old @ [line])"
      then show ?thesis using new by simp
    next
      assume "(k', v) \<in> set es"
      with assms(1) show ?thesis unfolding entries_ok_def by blast
    qed
  qed
  moreover have "distinct (map fst (AList.update k (?old @ [line]) es))"
    using assms(1) by (simp add: entries_ok_def distinct_update)
  ultimately show ?thesis unfolding entries_ok_def by simp
qed

lemma alpm_loop_ok: "entries_ok es \<Longrightarrow> alpm_loop ls k es = Inr es' \<Longrightarrow> entries_ok es'"
proof (induction ls arbitrary: k es)
  case Nil
  then show ?case by simp
next
  case (Cons raw rest)
  from Cons.prems(2) obtain s where s: "raw = Utf8 s"
    by (cases raw) (simp_all add: decode_def)
  show ?case
  proof (cases "strip s = []")
    case True
    with Cons s show ?thesis by (simp add: decode_def)
  next
    case False
    note upd = entries_ok_update [OF Cons.prems(1) False, of k]
    show ?thesis
    proof (cases "hd (strip s) = CHR ''%'' \<and> last (strip s) = CHR ''%''")
      case True
      with Cons.prems(2) s False
      have "alpm_loop rest (Some (lower (butlast (tl (strip s))))) es = Inr es'"
        by (simp add: decode_def Let_def)
      with Cons.IH [OF Cons.prems(1)] show ?thesis by blast
    next
      case novalue: False
      with Cons.prems(2) s False
      have "alpm_loop rest k
              (AList.update k
                 ((case map_of es k of None \<Rightarrow> [] | Some vs \<Rightarrow> vs) @ [strip s]) es) = Inr es'"
        by (simp add: decode_def Let_def)
      with Cons.IH [OF upd] show ?thesis by blast
    qed
  qed
qed

lemma alpm_parse_ok: "alpm_parse file = Inr es \<Longrightarrow> entries_ok es"
  unfolding alpm_parse_def using alpm_loop_ok [of "[]" "file" None es]
  by (simp add: entries_ok_def)

lemma alpm_loop_NotUtf8: "NotUtf8 \<in> set ls \<Longrightarrow> alpm_loop ls k es = Inl UnicodeDecodeError"
proof (induction ls arbitrary: k es)
  case Nil
  then show ?case by simp
next
  case (Cons raw rest)
  show ?case
  proof (cases raw)
    case NotUtf8
    then show ?thesis by (simp add: decode_def)
  next
    case (Utf8 s)
    with Cons.prems have "NotUtf8 \<in> set rest" by simp
    with Cons.IH Utf8 show ?thesis by (simp add: decode_def Let_def)
  qed
qed

lemma alpm_loop_Utf8: "NotUtf8 \<notin> set ls \<Longrightarrow> \<exists>es'. alpm_loop ls k es = Inr es'"
proof (induction ls arbitrary: k es)
  case Nil
  then show ?case by simp
next
  case (Cons raw rest)
  then obtain s where "raw = Utf8 s" by (cases raw) auto
  with Cons show ?case by (simp add: decode_def Let_def)
qed

lemma alpm_loop_head:
  "alpm_loop ls k ((k0, v0) # es) = Inr es' \<Longrightarrow> \<exists>vs es''. es' = (k0, v0 @ vs) # es''"
proof (induction ls arbitrary: k v0 es)
  case Nil
  then have "es' = (k0, v0 @ []) # es" by simp
  then show ?case by blast
next
  case (Cons raw rest)
  from Cons.prems obtain s where s: "raw = Utf8 s"
    by (cases raw) (simp_all add: decode_def)
  show ?case
  proof (cases "strip s = []")
    case True
    with Cons.prems s have "alpm_loop rest k ((k0, v0) # es) = Inr es'"
      by (simp add: decode_def)
    then show ?thesis by (rule Cons.IH)
  next
    case False
    show ?thesis
    proof (cases "hd (strip s) = CHR ''%'' \<and> last (strip s) = CHR ''%''")
      case True
      with Cons.prems s False
      have "alpm_loop rest (Some (lower (butlast (tl (strip s))))) ((k0, v0) # es) = Inr es'"
        by (simp add: decode_def Let_def)
      then show ?thesis by (rule Cons.IH)
    next
      case novalue: False
      show ?thesis
      proof (cases "k = k0")
        case True
        with Cons.prems s False novalue
        have "alpm_loop rest k0 ((k0, v0 @ [strip s]) # es) = Inr es'"
          by (simp add: decode_def Let_def)
        from Cons.IH [OF this] show ?thesis by auto
      next
        case other: False
        with Cons.prems s False novalue
        have "alpm_loop rest k
                ((k0, v0) # AList.update k
                   ((case map_of es k of None \<Rightarrow> [] | Some vs \<Rightarrow> vs) @ [strip s]) es) = Inr es'"
          by (simp add: decode_def Let_def)
        then show ?thesis by (rule Cons.IH)
      qed
    qed
  qed
qed

lemma alpm_loop_blank:
  "\<forall>s \<in> set pre. strip s = [] \<Longrightarrow> alpm_loop (map Utf8 pre @ ls) k es = alpm_loop ls k es"
  by (induction pre) (simp_all add: decode_def)


subsection \<open>Applying a parsed mapping to a package\<close>

lemma setattr_slot: "a \<in> set slots \<Longrightarrow> setattr self (Some a) v = Inr (self(a := v))"
  by (simp add: setattr_def)

lemma setattr_error:
  "k \<notin> Some ` set slots \<Longrightarrow>
     setattr self k v
       = Inl (if k = None \<or> k = Some ''__class__'' then TypeError else AttributeError)"
  by (cases k) (auto simp: setattr_def)

lemma parse_desc_items_ok:
  assumes "distinct (map fst es)" "\<forall>(k, v) \<in> set es. k \<in> Some ` set slots \<and> v \<noteq> []"
  shows "\<exists>self'. parse_desc_items self es = Inr self'
           \<and> (\<forall>a v. (Some a, v) \<in> set es \<longrightarrow>
                 self' a = (if a = ''groups'' then PTuple v else PStr (hd v)))
           \<and> (\<forall>a. Some a \<notin> fst ` set es \<longrightarrow> self' a = self a)"
  using assms
proof (induction es arbitrary: self)
  case Nil
  then show ?case by simp
next
  case (Cons kv rest)
  obtain k v where kv: "kv = (k, v)" by (cases kv)
  from Cons.prems kv obtain a where a: "k = Some a" "a \<in> set slots" and v: "v \<noteq> []"
    by auto
  define val where "val = (if a = ''groups'' then PTuple v else PStr (hd v))"
  have step: "parse_desc_items self (kv # rest) = parse_desc_items (self(a := val)) rest"
    using a v kv by (cases v) (auto simp: setattr_slot val_def)
  from Cons.prems have "distinct (map fst rest)"
    and "\<forall>(k, v) \<in> set rest. k \<in> Some ` set slots \<and> v \<noteq> []" by auto
  from Cons.IH [OF this, of "self(a := val)"] obtain self' where
    r: "parse_desc_items (self(a := val)) rest = Inr self'"
    and stored: "\<forall>a v. (Some a, v) \<in> set rest \<longrightarrow>
                 self' a = (if a = ''groups'' then PTuple v else PStr (hd v))"
    and kept: "\<forall>b. Some b \<notin> fst ` set rest \<longrightarrow> self' b = (self(a := val)) b"
    by blast
  have fresh: "Some a \<notin> fst ` set rest" using Cons.prems(1) kv a by auto
  have "self' a = val" using kept fresh by simp
  moreover have "\<forall>b. Some b \<notin> fst ` set (kv # rest) \<longrightarrow> self' b = self b"
    using kept kv a by auto
  ultimately show ?case
    using step r stored kv a fresh unfolding val_def by (auto simp: image_iff)
qed

lemma parse_desc_items_first_bad:
  assumes "\<forall>(k', v') \<in> set pre. k' \<in> Some ` set slots \<and> v' \<noteq> []"
    and "k \<notin> Some ` set slots" and "v \<noteq> []"
  shows "parse_desc_items self (pre @ (k, v) # post)
           = Inl (if k = None \<or> k = Some ''__class__'' then TypeError else AttributeError)"
  using assms(1)
proof (induction pre arbitrary: self)
  case Nil
  from assms(3) obtain v0 vs where v: "v = v0 # vs" by (cases v) auto
  have "k \<noteq> Some ''groups''" using assms(2) by (auto simp: slots_def)
  then show ?case using v setattr_error [OF assms(2)] by simp
next
  case (Cons kv rest)
  obtain k' v' where kv: "kv = (k', v')" by (cases kv)
  from Cons.prems kv obtain a where a: "k' = Some a" "a \<in> set slots" and v': "v' \<noteq> []"
    by auto
  define val where "val = (if a = ''groups'' then PTuple v' else PStr (hd v'))"
  have step: "parse_desc_items self ((kv # rest) @ (k, v) # post)
                = parse_desc_items (self(a := val)) (rest @ (k, v) # post)"
    using a v' kv by (cases v') (auto simp: setattr_slot val_def)
  from Cons.prems have "\<forall>(k', v') \<in> set rest. k' \<in> Some ` set slots \<and> v' \<noteq> []" by auto
  from Cons.IH [OF this] step show ?case by simp
qed

lemma bare_name_nonempty: "e \<noteq> [] \<Longrightarrow> hd e \<notin> excluded \<Longrightarrow> bare_name e \<noteq> []"
  by (cases e) (auto simp: bare_name_def)

lemma bare_name_empty: "e \<noteq> [] \<Longrightarrow> hd e \<in> excluded \<Longrightarrow> bare_name e = []"
  by (cases e) (auto simp: bare_name_def)

lemma strip_versions_ok:
  "\<forall>e \<in> set v. e \<noteq> [] \<and> hd e \<notin> excluded \<Longrightarrow> strip_versions v = Inr (map bare_name v)"
proof (induction v)
  case Nil
  then show ?case by simp
next
  case (Cons e es)
  then have "bare_name e \<noteq> []" by (simp add: bare_name_nonempty)
  moreover from Cons have "strip_versions es = Inr (map bare_name es)" by simp
  ultimately show ?case by (simp add: re_match_group_def)
qed

lemma strip_versions_fails:
  "\<exists>e \<in> set v. e \<noteq> [] \<and> hd e \<in> excluded \<Longrightarrow> strip_versions v = Inl AttributeError"
proof (induction v)
  case Nil
  then show ?case by simp
next
  case (Cons e es)
  show ?case
  proof (cases "bare_name e = []")
    case True
    then show ?thesis by (simp add: re_match_group_def)
  next
    case False
    then have "\<not> (e \<noteq> [] \<and> hd e \<in> excluded)" using bare_name_empty by blast
    with Cons.prems have "\<exists>e \<in> set es. e \<noteq> [] \<and> hd e \<in> excluded" by auto
    from Cons.IH [OF this] False show ?thesis by (simp add: re_match_group_def)
  qed
qed

lemma parse_deps_items_ok:
  assumes "distinct (map fst es)"
    "\<forall>(k, v) \<in> set es. k \<in> Some ` set slots \<and> (\<forall>e \<in> set v. e \<noteq> [] \<and> hd e \<notin> excluded)"
  shows "\<exists>self'. parse_deps_items self es = Inr self'
           \<and> (\<forall>a v. (Some a, v) \<in> set es \<longrightarrow> self' a = PTuple (map bare_name v))
           \<and> (\<forall>a. Some a \<notin> fst ` set es \<longrightarrow> self' a = self a)"
  using assms
proof (induction es arbitrary: self)
  case Nil
  then show ?case by simp
next
  case (Cons kv rest)
  obtain k v where kv: "kv = (k, v)" by (cases kv)
  from Cons.prems kv obtain a where a: "k = Some a" "a \<in> set slots"
    and v: "\<forall>e \<in> set v. e \<noteq> [] \<and> hd e \<notin> excluded"
    by auto
  define val where "val = PTuple (map bare_name v)"
  have step: "parse_deps_items self (kv # rest) = parse_deps_items (self(a := val)) rest"
    using a kv strip_versions_ok [OF v] by (simp add: setattr_slot val_def)
  from Cons.prems have "distinct (map fst rest)"
    and "\<forall>(k, v) \<in> set rest. k \<in> Some ` set slots \<and> (\<forall>e \<in> set v. e \<noteq> [] \<and> hd e \<notin> excluded)"
    by auto
  from Cons.IH [OF this, of "self(a := val)"] obtain self' where
    r: "parse_deps_items (self(a := val)) rest = Inr self'"
    and stored: "\<forall>a v. (Some a, v) \<in> set rest \<longrightarrow> self' a = PTuple (map bare_name v)"
    and kept: "\<forall>b. Some b \<notin> fst ` set rest \<longrightarrow> self' b = (self(a := val)) b"
    by blast
  have fresh: "Some a \<notin> fst ` set rest" using Cons.prems(1) kv a by auto
  have "self' a = val" using kept fresh by simp
  moreover have "\<forall>b. Some b \<notin> fst ` set (kv # rest) \<longrightarrow> self' b = self b"
    using kept kv a by auto
  ultimately show ?case
    using step r stored kv a fresh unfolding val_def by (auto simp: image_iff)
qed

lemma parse_deps_items_first_bad:
  assumes "\<forall>(k', v') \<in> set pre.
             k' \<in> Some ` set slots \<and> (\<forall>e \<in> set v'. e \<noteq> [] \<and> hd e \<notin> excluded)"
    and "\<forall>e \<in> set v. e \<noteq> []"
    and "k \<notin> Some ` set slots \<or> (\<exists>e \<in> set v. hd e \<in> excluded)"
  shows "parse_deps_items self (pre @ (k, v) # post)
           = Inl (if \<exists>e \<in> set v. hd e \<in> excluded then AttributeError
                  else if k = None \<or> k = Some ''__class__'' then TypeError
                  else AttributeError)"
  using assms(1)
proof (induction pre arbitrary: self)
  case Nil
  show ?case
  proof (cases "\<exists>e \<in> set v. hd e \<in> excluded")
    case True
    with assms(2) have "\<exists>e \<in> set v. e \<noteq> [] \<and> hd e \<in> excluded" by blast
    from strip_versions_fails [OF this] True show ?thesis by simp
  next
    case False
    with assms(2) have "\<forall>e \<in> set v. e \<noteq> [] \<and> hd e \<notin> excluded" by blast
    from strip_versions_ok [OF this] have sv: "strip_versions v = Inr (map bare_name v)" .
    from False assms(3) have "k \<notin> Some ` set slots" by blast
    from setattr_error [OF this] sv False show ?thesis by simp
  qed
next
  case (Cons kv rest)
  obtain k' v' where kv: "kv = (k', v')" by (cases kv)
  from Cons.prems kv obtain a where a: "k' = Some a" "a \<in> set slots"
    and v': "\<forall>e \<in> set v'. e \<noteq> [] \<and> hd e \<notin> excluded"
    by auto
  have step: "parse_deps_items self ((kv # rest) @ (k, v) # post)
                = parse_deps_items (self(a := PTuple (map bare_name v'))) (rest @ (k, v) # post)"
    using a kv strip_versions_ok [OF v'] by (simp add: setattr_slot)
  from Cons.prems
  have "\<forall>(k', v') \<in> set rest.
          k' \<in> Some ` set slots \<and> (\<forall>e \<in> set v'. e \<noteq> [] \<and> hd e \<notin> excluded)" by auto
  from Cons.IH [OF this] step show ?case by simp
qed

lemma bare_name_longest:
  "prefix (bare_name e) e \<and> (\<forall>c \<in> set (bare_name e). c \<notin> excluded)
   \<and> (\<forall>r. prefix r e \<and> (\<forall>c \<in> set r. c \<notin> excluded) \<longrightarrow> prefix r (bare_name e))"
proof (intro conjI allI impI)
  show "prefix (bare_name e) e"
    unfolding bare_name_def by (metis prefixI takeWhile_dropWhile_id)
  show "\<forall>c \<in> set (bare_name e). c \<notin> excluded"
    unfolding bare_name_def by (metis set_takeWhileD)
  fix r assume r: "prefix r e \<and> (\<forall>c \<in> set r. c \<notin> excluded)"
  then obtain s where e: "e = r @ s" by (auto simp: prefix_def)
  have "takeWhile (\<lambda>c. c \<notin> excluded) (r @ s) = r @ takeWhile (\<lambda>c. c \<notin> excluded) s"
    using r by (intro takeWhile_append2) blast
  then show "prefix r (bare_name e)" unfolding bare_name_def e by simp
qed

section \<open>Lemmas: building a catalog and a mirror\<close>

lemma snd_update_subset: "snd ` set (AList.update k v al) \<subseteq> insert v (snd ` set al)"
  using set_update_subset [of k v al] by force

lemma fst_update: "fst ` set (AList.update k v al) = insert k (fst ` set al)"
  by (simp add: dom_update)

lemma distinct_snd_update:
  "distinct (map snd al) \<Longrightarrow> v \<notin> snd ` set al \<Longrightarrow> distinct (map snd (AList.update k v al))"
proof (induction al)
  case Nil
  then show ?case by simp
next
  case (Cons p al)
  show ?case
  proof (cases "fst p = k")
    case True
    with Cons.prems show ?thesis by auto
  next
    case False
    have "snd p \<notin> snd ` set (AList.update k v al)"
      using snd_update_subset [of k v al] Cons.prems by auto
    with False Cons show ?thesis by auto
  qed
qed

lemma distinct_snd_same_key:
  "distinct (map snd al) \<Longrightarrow> (k, v) \<in> set al \<Longrightarrow> (k', v) \<in> set al \<Longrightarrow> k = k'"
  by (induction al) force+

lemma index_ok_mono: "index_ok K d \<Longrightarrow> K \<subseteq> K' \<Longrightarrow> index_ok K' d"
  unfolding index_ok_def by blast

lemma dd_append_ok:
  assumes "index_ok K d" "nm \<in> K"
  shows "index_ok K (dd_append d g nm)"
proof -
  let ?old = "case map_of d g of None \<Rightarrow> [] | Some xs \<Rightarrow> xs"
  have old: "set ?old \<subseteq> K"
  proof (cases "map_of d g")
    case None
    then show ?thesis by simp
  next
    case (Some xs)
    then have "(g, xs) \<in> set d" by (rule map_of_SomeD)
    with assms(1) have "set xs \<subseteq> K" unfolding index_ok_def by blast
    with Some show ?thesis by simp
  qed
  have "\<forall>(k, ns) \<in> set (AList.update g (?old @ [nm]) d). ns \<noteq> [] \<and> set ns \<subseteq> K"
  proof (clarify)
    fix k ns assume "(k, ns) \<in> set (AList.update g (?old @ [nm]) d)"
    then have "(k, ns) = (g, ?old @ [nm]) \<or> (k, ns) \<in> set d"
      using set_update_subset [of g "?old @ [nm]" d] by blast
    then show "ns \<noteq> [] \<and> set ns \<subseteq> K"
    proof
      assume "(k, ns) = (g, ?old @ [nm])"
      then show ?thesis using old assms(2) by auto
    next
      assume "(k, ns) \<in> set d"
      with assms(1) show ?thesis unfolding index_ok_def by blast
    qed
  qed
  then show ?thesis unfolding dd_append_def index_ok_def .
qed

lemma fold_dd_append_ok:
  "index_ok K d \<Longrightarrow> nm \<in> K \<Longrightarrow> index_ok K (fold (\<lambda>g d. dd_append d g nm) gs d)"
  by (induction gs arbitrary: d) (simp_all add: dd_append_ok)

lemma index_packages_inv:
  "index_packages h pk self = Inr self' \<Longrightarrow>
     packages self' = packages self
     \<and> (fst ` set pk \<subseteq> K \<and> index_ok K (groups self) \<and> index_ok K (provides self)
          \<longrightarrow> index_ok K (groups self') \<and> index_ok K (provides self'))"
proof (induction pk arbitrary: self)
  case Nil
  then show ?case by simp
next
  case (Cons p pk)
  obtain nm i where p: "p = (nm, i)" by (cases p)
  from Cons.prems p obtain gs ps where
    gs: "iter (objs h i ''groups'') = Inr gs" and ps: "iter (objs h i ''provides'') = Inr ps"
    by (auto simp: Let_def split: sum.splits)
  define self1 where "self1 = self\<lparr>groups := fold (\<lambda>g d. dd_append d g nm) gs (groups self)\<rparr>"
  define self2 where "self2 = self1\<lparr>provides := fold (\<lambda>p d. dd_append d p nm) ps (provides self1)\<rparr>"
  from Cons.prems p gs ps have rest: "index_packages h pk self2 = Inr self'"
    by (simp add: Let_def self1_def self2_def)
  note ih = Cons.IH [OF rest]
  have pk2: "packages self2 = packages self" by (simp add: self1_def self2_def)
  have step: "nm \<in> K \<and> index_ok K (groups self) \<and> index_ok K (provides self)
      \<longrightarrow> index_ok K (groups self2) \<and> index_ok K (provides self2)"
    by (simp add: self1_def self2_def fold_dd_append_ok)
  from ih pk2 step p show ?case by auto
qed

lemma load_entries_step:
  assumes "load_entries self h (f # rest) = Inr res"
  shows "\<exists>self1 h1. load_entries self1 h1 rest = Inr res
           \<and> ((self1 = self \<and> next_oid h1 = next_oid h)
              \<or> (self1 = self\<lparr>packages :=
                                AList.update (package_name (ti_name f)) (next_oid h) (packages self)\<rparr>
                 \<and> next_oid h1 = Suc (next_oid h)))"
proof (cases "ti_isdir f")
  case True
  let ?self1 = "self\<lparr>packages :=
                       AList.update (package_name (ti_name f)) (next_oid h) (packages self)\<rparr>"
  let ?h1 = "h\<lparr>objs := (objs h)(next_oid h := Package_init (package_name (ti_name f))),
               next_oid := Suc (next_oid h)\<rparr>"
  from assms True have "load_entries ?self1 ?h1 rest = Inr res"
    by (simp add: Let_def new_Package_def)
  moreover have "next_oid ?h1 = Suc (next_oid h)" by simp
  ultimately show ?thesis by blast
next
  case False
  with assms obtain i where i: "map_of (packages self) (package_name (ti_name f)) = Some i"
    by (auto simp: Let_def split: option.splits)
  have same: "\<And>h1. load_entries self h1 rest = Inr res \<Longrightarrow> next_oid h1 = next_oid h \<Longrightarrow> ?thesis"
    by blast
  show ?thesis
  proof (cases "basename (ti_name f) = ''desc''")
    case desc: True
    from assms False i desc obtain package url local where
      "load_entries self
         (h\<lparr>objs := (objs h)(i := package(''remote_url'' := PStr url,
                                           ''local_path'' := PStr local))\<rparr>) rest = Inr res"
      by (auto simp: Let_def split: sum.splits)
    then show ?thesis by (rule same) simp
  next
    case nodesc: False
    show ?thesis
    proof (cases "basename (ti_name f) = ''depends''")
      case True
      from assms False i nodesc True obtain package where
        "load_entries self (h\<lparr>objs := (objs h)(i := package)\<rparr>) rest = Inr res"
        by (auto simp: Let_def split: sum.splits)
      then show ?thesis by (rule same) simp
    next
      case nodeps: False
      from assms False i nodesc nodeps have "load_entries self h rest = Inr res"
        by (simp add: Let_def)
      then show ?thesis by (rule same) simp
    qed
  qed
qed

lemma load_entries_inv:
  "load_entries self h es = Inr (self', h') \<Longrightarrow>
     next_oid h \<le> next_oid h'
     \<and> groups self' = groups self \<and> provides self' = provides self
     \<and> fst ` set (packages self) \<subseteq> fst ` set (packages self')
     \<and> (oids self \<subseteq> {..<next_oid h} \<longrightarrow> oids self' \<subseteq> oids self \<union> {next_oid h..<next_oid h'})
     \<and> (oids self \<subseteq> {..<next_oid h} \<and> distinct (map snd (packages self))
          \<longrightarrow> distinct (map snd (packages self')))"
proof (induction es arbitrary: self h)
  case Nil
  then show ?case by auto
next
  case (Cons f rest)
  from load_entries_step [OF Cons.prems] obtain self1 h1 where
    rest: "load_entries self1 h1 rest = Inr (self', h')"
    and step: "(self1 = self \<and> next_oid h1 = next_oid h)
              \<or> (self1 = self\<lparr>packages :=
                                AList.update (package_name (ti_name f)) (next_oid h) (packages self)\<rparr>
                 \<and> next_oid h1 = Suc (next_oid h))"
    by blast
  note ih = Cons.IH [OF rest]
  from step show ?case
  proof
    assume "self1 = self \<and> next_oid h1 = next_oid h"
    with ih show ?thesis by simp
  next
    assume new: "self1 = self\<lparr>packages :=
                                AList.update (package_name (ti_name f)) (next_oid h) (packages self)\<rparr>
                 \<and> next_oid h1 = Suc (next_oid h)"
    let ?k = "package_name (ti_name f)"
    have keys: "fst ` set (packages self1) = insert ?k (fst ` set (packages self))"
      using new by (simp add: fst_update)
    have vals: "oids self1 \<subseteq> insert (next_oid h) (oids self)"
      using new snd_update_subset [of ?k "next_oid h" "packages self"] by (simp add: oids_def)
    have bound: "oids self \<subseteq> {..<next_oid h} \<Longrightarrow> oids self1 \<subseteq> {..<next_oid h1}"
      using vals new by auto
    have dist: "oids self \<subseteq> {..<next_oid h} \<Longrightarrow> distinct (map snd (packages self))
        \<Longrightarrow> distinct (map snd (packages self1))"
    proof -
      assume "oids self \<subseteq> {..<next_oid h}" and d: "distinct (map snd (packages self))"
      then have "next_oid h \<notin> snd ` set (packages self)" by (auto simp: oids_def)
      with d show ?thesis using new by (simp add: distinct_snd_update)
    qed
    have "next_oid h \<le> next_oid h'" using ih new by simp
    moreover have "groups self' = groups self \<and> provides self' = provides self"
      using ih new by simp
    moreover have "fst ` set (packages self) \<subseteq> fst ` set (packages self')"
      using ih keys by auto
    moreover have "oids self \<subseteq> {..<next_oid h}
        \<longrightarrow> oids self' \<subseteq> oids self \<union> {next_oid h..<next_oid h'}"
    proof
      assume a: "oids self \<subseteq> {..<next_oid h}"
      from bound [OF a] ih have sub: "oids self' \<subseteq> oids self1 \<union> {next_oid h1..<next_oid h'}"
        by simp
      have lt: "next_oid h < next_oid h'" using ih new by simp
      have suc: "next_oid h1 = Suc (next_oid h)" using new by simp
      show "oids self' \<subseteq> oids self \<union> {next_oid h..<next_oid h'}"
      proof
        fix x assume "x \<in> oids self'"
        with sub have "x \<in> oids self1 \<or> x \<in> {next_oid h1..<next_oid h'}" by blast
        then show "x \<in> oids self \<union> {next_oid h..<next_oid h'}"
        proof
          assume "x \<in> oids self1"
          with vals have "x = next_oid h \<or> x \<in> oids self" by blast
          with lt show ?thesis by auto
        next
          assume "x \<in> {next_oid h1..<next_oid h'}"
          with suc show ?thesis by auto
        qed
      qed
    qed
    moreover have "oids self \<subseteq> {..<next_oid h} \<and> distinct (map snd (packages self))
          \<longrightarrow> distinct (map snd (packages self'))"
      using bound dist ih by blast
    ultimately show ?thesis by blast
  qed
qed

lemma initialize_db_inv:
  assumes "initialize_db db self h = Inr (self', h')"
  shows "fst ` set (packages self) \<subseteq> fst ` set (packages self')
     \<and> next_oid h \<le> next_oid h'
     \<and> (index_ok (fst ` set (packages self)) (groups self)
        \<and> index_ok (fst ` set (packages self)) (provides self)
          \<longrightarrow> index_ok (fst ` set (packages self')) (groups self')
              \<and> index_ok (fst ` set (packages self')) (provides self'))
     \<and> (oids self \<subseteq> {..<next_oid h} \<longrightarrow> oids self' \<subseteq> oids self \<union> {next_oid h..<next_oid h'})
     \<and> (oids self \<subseteq> {..<next_oid h} \<and> distinct (map snd (packages self))
          \<longrightarrow> distinct (map snd (packages self')))"
proof -
  from assms obtain dbfile self1 where
    l: "load_entries self h dbfile = Inr (self1, h')"
    and x: "index_packages h' (packages self1) self1 = Inr self'"
    by (auto simp: initialize_db_def split: sum.splits)
  note li = load_entries_inv [OF l]
  note xi = index_packages_inv [OF x, of "fst ` set (packages self1)"]
  have pk: "packages self' = packages self1" using xi by simp
  have "index_ok (fst ` set (packages self)) (groups self)
        \<and> index_ok (fst ` set (packages self)) (provides self)
          \<longrightarrow> index_ok (fst ` set (packages self')) (groups self')
              \<and> index_ok (fst ` set (packages self')) (provides self')"
  proof
    assume a: "index_ok (fst ` set (packages self)) (groups self)
        \<and> index_ok (fst ` set (packages self)) (provides self)"
    have "index_ok (fst ` set (packages self1)) (groups self1)"
      using a li index_ok_mono [of "fst ` set (packages self)" "groups self"] by simp
    moreover have "index_ok (fst ` set (packages self1)) (provides self1)"
      using a li index_ok_mono [of "fst ` set (packages self)" "provides self"] by simp
    ultimately show "index_ok (fst ` set (packages self')) (groups self')
              \<and> index_ok (fst ` set (packages self')) (provides self')"
      using xi pk by simp
  qed
  then show ?thesis using li pk by (simp add: oids_def)
qed

lemma Repo_init_ok:
  assumes "Repo_init db h nm ar srv root = Inr (r, h')"
  shows "repo_ok r \<and> oids r \<subseteq> {next_oid h..<next_oid h'} \<and> next_oid h \<le> next_oid h'"
  using initialize_db_inv [OF assms [unfolded Repo_init_def]]
  by (simp add: repo_ok_def index_ok_def oids_def)

lemma disjoint_oids_update:
  "disjoint_oids (map snd al) \<Longrightarrow> \<forall>r' \<in> snd ` set al. oids r \<inter> oids r' = {}
     \<Longrightarrow> disjoint_oids (map snd (AList.update k r al))"
proof (induction al)
  case Nil
  then show ?case by simp
next
  case (Cons p al)
  show ?case
  proof (cases "fst p = k")
    case True
    with Cons.prems show ?thesis by auto
  next
    case False
    have "\<forall>x \<in> snd ` set (AList.update k r al). oids (snd p) \<inter> oids x = {}"
    proof
      fix x assume "x \<in> snd ` set (AList.update k r al)"
      then have "x = r \<or> x \<in> snd ` set al" using snd_update_subset [of k r al] by auto
      then show "oids (snd p) \<inter> oids x = {}" using Cons.prems by auto
    qed
    with False Cons show ?thesis by auto
  qed
qed

lemma disjoint_oids_mem:
  "disjoint_oids rs \<Longrightarrow> r \<in> set rs \<Longrightarrow> r' \<in> set rs \<Longrightarrow> r \<noteq> r' \<Longrightarrow> oids r \<inter> oids r' = {}"
  by (induction rs) auto

lemma mirror_ok_update:
  assumes "mirror_ok self h" "Repo_init db h nm ar srv root = Inr (repo, h')"
  shows "mirror_ok (self\<lparr>repos := AList.update k repo (repos self)\<rparr>) h'"
proof -
  note r = Repo_init_ok [OF assms(2)]
  have old: "\<forall>r' \<in> snd ` set (repos self). repo_ok r' \<and> oids r' \<subseteq> {..<next_oid h}"
    using assms(1) by (simp add: mirror_ok_def)
  have "\<forall>r' \<in> snd ` set (repos self). oids repo \<inter> oids r' = {}"
    using old r by fastforce
  with assms(1) have d: "disjoint_oids (map snd (AList.update k repo (repos self)))"
    by (simp add: mirror_ok_def disjoint_oids_update)
  have "\<forall>x \<in> snd ` set (AList.update k repo (repos self)). repo_ok x \<and> oids x \<subseteq> {..<next_oid h'}"
  proof
    fix x assume "x \<in> snd ` set (AList.update k repo (repos self))"
    then have "x = repo \<or> x \<in> snd ` set (repos self)"
      using snd_update_subset [of k repo "repos self"] by auto
    then show "repo_ok x \<and> oids x \<subseteq> {..<next_oid h'}"
    proof
      assume "x = repo"
      with r show ?thesis by auto
    next
      assume "x \<in> snd ` set (repos self)"
      with old have "repo_ok x \<and> oids x \<subseteq> {..<next_oid h}" by blast
      with r show ?thesis by auto
    qed
  qed
  with d show ?thesis by (simp add: mirror_ok_def)
qed

lemma Mirror_loop_ok:
  "Mirror_loop db srv ps self h = Inr (m, h') \<Longrightarrow> mirror_ok self h \<Longrightarrow> mirror_ok m h'"
proof (induction ps arbitrary: self h)
  case Nil
  then show ?case by simp
next
  case (Cons p ps)
  obtain nm ar where p: "p = (nm, ar)" by (cases p)
  from Cons.prems(1) p obtain repo h1 where
    r: "Repo_init db h nm ar srv [] = Inr (repo, h1)"
    and rest: "Mirror_loop db srv ps (self\<lparr>repos := AList.update (nm, ar) repo (repos self)\<rparr>) h1
                = Inr (m, h')"
    by (auto split: sum.splits)
  from mirror_ok_update [OF Cons.prems(2) r] Cons.IH [OF rest] show ?case by blast
qed

lemma Mirror_init_ok:
  assumes "Mirror_init db h repo_names srv archs = Inr (m, h')"
  shows "mirror_ok m h'"
  using Mirror_loop_ok [OF assms [unfolded Mirror_init_def]] by (simp add: mirror_ok_def)

section \<open>Lemmas: name resolution\<close>

lemma find_in_repo_spec:
  "find_in_repo r n fp = (case spec_match_set r n of None \<Rightarrow> fp | Some ns \<Rightarrow> Some ns)"
proof (cases "n \<in> fst ` set (packages r)")
  case True
  then show ?thesis by (simp add: find_in_repo_def spec_match_set_def)
next
  case nopkg: False
  show ?thesis
  proof (cases "map_of (provides r) n")
    case (Some ps)
    then have "n \<in> fst ` set (provides r)" by (metis map_of_eq_None_iff option.distinct(1))
    with nopkg Some show ?thesis by (simp add: find_in_repo_def spec_match_set_def)
  next
    case noprov: None
    then have np: "n \<notin> fst ` set (provides r)" by (simp add: map_of_eq_None_iff)
    show ?thesis
    proof (cases "map_of (groups r) n")
      case (Some gs)
      then have "n \<in> fst ` set (groups r)" by (metis map_of_eq_None_iff option.distinct(1))
      with nopkg noprov np Some show ?thesis by (simp add: find_in_repo_def spec_match_set_def)
    next
      case None
      then have "n \<notin> fst ` set (groups r)" by (simp add: map_of_eq_None_iff)
      with nopkg noprov np None show ?thesis by (simp add: find_in_repo_def spec_match_set_def)
    qed
  qed
qed

lemma map_of_is_Some: "(\<exists>y. map_of d k = Some y) \<longleftrightarrow> k \<in> fst ` set d"
  by (metis map_of_eq_None_iff not_Some_eq)

lemma spec_match_set_contains: "Repo_contains r n \<longleftrightarrow> spec_match_set r n \<noteq> None"
  by (simp add: Repo_contains_def spec_match_set_def map_of_is_Some)

lemma spec_match_set_closed:
  assumes "repo_ok r" "spec_match_set r n = Some ns"
  shows "ns \<noteq> [] \<and> set ns \<subseteq> fst ` set (packages r)"
proof (cases "n \<in> fst ` set (packages r)")
  case True
  with assms(2) have "ns = [n]" by (simp add: spec_match_set_def)
  with True show ?thesis by simp
next
  case False
  with assms(2) have "map_of (provides r) n = Some ns \<or> map_of (groups r) n = Some ns"
    by (simp add: spec_match_set_def split: if_splits)
  then have "(n, ns) \<in> set (provides r) \<or> (n, ns) \<in> set (groups r)"
    by (auto dest: map_of_SomeD)
  with assms(1) show ?thesis unfolding repo_ok_def index_ok_def by blast
qed

lemma lookup_all_ok:
  "set ns \<subseteq> fst ` set pk \<Longrightarrow>
     \<exists>is. lookup_all pk ns = Inr is \<and> set is = {i. \<exists>p \<in> set ns. map_of pk p = Some i}"
proof (induction ns)
  case Nil
  then show ?case by simp
next
  case (Cons p ps)
  then obtain js where js: "lookup_all pk ps = Inr js"
    and sjs: "set js = {i. \<exists>p \<in> set ps. map_of pk p = Some i}" by auto
  from Cons.prems obtain i where i: "map_of pk p = Some i"
    by (metis list.set_intros(1) map_of_eq_None_iff not_Some_eq subsetD)
  have "lookup_all pk (p # ps) = Inr (i # js)" using i js by simp
  moreover have "set (i # js) = {i. \<exists>q \<in> set (p # ps). map_of pk q = Some i}"
    using i sjs by auto
  ultimately show ?case by blast
qed

lemma lookup_all_subset: "lookup_all pk ns = Inr is \<Longrightarrow> set is \<subseteq> snd ` set pk"
proof (induction ns arbitrary: "is")
  case Nil
  then show ?case by simp
next
  case (Cons p ps)
  from Cons.prems obtain i js where i: "map_of pk p = Some i"
    and js: "lookup_all pk ps = Inr js" and eq: "is = i # js"
    by (auto split: option.splits sum.splits)
  from i have "i \<in> snd ` set pk" by (force dest: map_of_SomeD)
  with Cons.IH [OF js] eq show ?case by simp
qed

lemma spec_contribution_subset: "spec_contribution r n \<subseteq> oids r"
  by (force simp: spec_contribution_def oids_def split: option.splits dest: map_of_SomeD)

lemma spec_contribution_empty: "\<not> Repo_contains r n \<Longrightarrow> spec_contribution r n = {}"
  by (simp add: spec_match_set_contains spec_contribution_def)

lemma spec_contribution_nonempty:
  assumes "repo_ok r" "Repo_contains r n"
  shows "spec_contribution r n \<noteq> {}"
proof -
  from assms(2) obtain ns where ns: "spec_match_set r n = Some ns"
    by (auto simp: spec_match_set_contains)
  from spec_match_set_closed [OF assms(1) ns] obtain p where "p \<in> set ns"
    and "p \<in> fst ` set (packages r)" by (cases ns) auto
  then obtain i where "map_of (packages r) p = Some i"
    by (metis map_of_eq_None_iff not_Some_eq)
  with \<open>p \<in> set ns\<close> ns show ?thesis by (auto simp: spec_contribution_def)
qed

lemma resolve_name_loop_spec:
  "\<forall>r \<in> set rs. repo_ok r \<Longrightarrow>
     resolve_name_loop rs n None acc = Inr (acc \<union> (\<Union>r \<in> set rs. spec_contribution r n))"
proof (induction rs arbitrary: acc)
  case Nil
  then show ?case by simp
next
  case (Cons r rs)
  then have ok: "repo_ok r" and rest: "\<forall>r \<in> set rs. repo_ok r" by auto
  show ?case
  proof (cases "spec_match_set r n")
    case None
    then have "resolve_name_loop (r # rs) n None acc = resolve_name_loop rs n None acc"
      by (simp add: find_in_repo_spec)
    with Cons.IH [OF rest] None show ?thesis by (simp add: spec_contribution_def)
  next
    case (Some ns)
    from spec_match_set_closed [OF ok Some] obtain p ps where ns: "ns = p # ps"
      and sub: "set ns \<subseteq> fst ` set (packages r)" by (cases ns) auto
    from lookup_all_ok [OF sub] obtain js where js: "lookup_all (packages r) ns = Inr js"
      and sjs: "set js = {i. \<exists>p \<in> set ns. map_of (packages r) p = Some i}" by blast
    have "resolve_name_loop (r # rs) n None acc = resolve_name_loop rs n None (acc \<union> set js)"
      using Some ns js by (simp add: find_in_repo_spec)
    moreover have "spec_contribution r n = set js" using Some sjs by (simp add: spec_contribution_def)
    ultimately show ?thesis using Cons.IH [OF rest] by (simp add: Un_assoc)
  qed
qed

lemma resolve_name_spec:
  assumes "\<forall>r \<in> snd ` set (repos m). repo_ok r"
  shows "resolve_name m n important =
     (if spec_resolveName m n = {} \<and> important
      then Inl (ValueError (n @ '' not found in any repo''))
      else Inr (spec_resolveName m n))"
proof -
  have "resolve_name_loop (map snd (repos m)) n None {} = Inr (spec_resolveName m n)"
    using resolve_name_loop_spec [of "map snd (repos m)" n "{}"] assms
    by (simp add: spec_resolveName_def)
  then show ?thesis by (simp add: resolve_name_def)
qed

lemma resolve_name_loop_subset:
  "resolve_name_loop rs n fp acc = Inr S \<Longrightarrow> S \<subseteq> acc \<union> (\<Union>r \<in> set rs. oids r)"
proof (induction rs arbitrary: fp acc)
  case Nil
  then show ?case by simp
next
  case (Cons r rs)
  show ?case
  proof (cases "\<exists>p ps. find_in_repo r n fp = Some (p # ps)")
    case True
    then obtain p ps where f: "find_in_repo r n fp = Some (p # ps)" by blast
    with Cons.prems obtain js where js: "lookup_all (packages r) (p # ps) = Inr js"
      and rest: "resolve_name_loop rs n None (acc \<union> set js) = Inr S"
      by (auto split: sum.splits)
    from lookup_all_subset [OF js] have "set js \<subseteq> oids r" by (simp add: oids_def)
    with Cons.IH [OF rest] show ?thesis by auto
  next
    case False
    with Cons.prems have "resolve_name_loop rs n (find_in_repo r n fp) acc = Inr S"
      by (auto split: option.splits list.splits)
    from Cons.IH [OF this] show ?thesis by auto
  qed
qed

lemma resolve_name_subset: "resolve_name m n important = Inr S \<Longrightarrow> S \<subseteq> all_oids m"
proof -
  assume "resolve_name m n important = Inr S"
  then have "resolve_name_loop (map snd (repos m)) n None {} = Inr S"
    by (auto simp: resolve_name_def split: sum.splits if_splits)
  from resolve_name_loop_subset [OF this] show ?thesis by (simp add: all_oids_def)
qed

lemma finite_all_oids: "finite (all_oids m)"
  by (simp add: all_oids_def oids_def)

lemma resolve_name_loop_unmatched:
  "\<forall>r \<in> set rs. \<not> Repo_contains r n \<Longrightarrow> resolve_name_loop rs n None acc = Inr acc"
  by (induction rs) (simp_all add: find_in_repo_spec spec_match_set_contains)

lemma resolve_name_unmatched:
  assumes "\<forall>r \<in> snd ` set (repos m). \<not> Repo_contains r n"
  shows "resolve_name m n False = Inr {}"
    and "resolve_name m n True = Inl (ValueError (n @ '' not found in any repo''))"
  using resolve_name_loop_unmatched [of "map snd (repos m)" n "{}"] assms
  by (simp_all add: resolve_name_def)

section \<open>Lemmas: the dependency closure\<close>

lemma faithful_set: "faithful ord \<Longrightarrow> finite S \<Longrightarrow> set (ord c S) = S"
  unfolding faithful_def by blast

lemma faithful_distinct: "faithful ord \<Longrightarrow> finite S \<Longrightarrow> distinct (ord c S)"
  unfolding faithful_def by blast

lemma faithful_empty: "faithful ord \<Longrightarrow> ord c {} = []"
  using faithful_set [of ord "{}" c] by simp

lemma faithful_single:
  assumes "faithful ord"
  shows "ord c {x} = [x]"
proof -
  have s: "set (ord c {x}) = {x}" using assms by (simp add: faithful_set)
  have d: "distinct (ord c {x})" using assms by (simp add: faithful_distinct)
  from d have "length (ord c {x}) = card (set (ord c {x}))" by (simp add: distinct_card)
  with s have "length (ord c {x}) = 1" by simp
  then obtain y where y: "ord c {x} = [y]" by (cases "ord c {x}") auto
  with s show ?thesis by simp
qed

lemma resolve_name_finite: "resolve_name m n important = Inr S \<Longrightarrow> finite S"
  using resolve_name_subset [of m n important S] finite_all_oids [of m]
  by (auto intro: finite_subset)

lemma enqueue_extends:
  assumes "faithful ord"
  shows "enqueue ord m important known ds q = Inr q' \<Longrightarrow>
           set q \<subseteq> set q' \<and> set q' \<subseteq> set q \<union> all_oids m"
proof (induction ds arbitrary: q)
  case Nil
  then show ?case by simp
next
  case (Cons d ds)
  from Cons.prems obtain S where S: "resolve_name m d important = Inr S"
    and rest: "enqueue ord m important known ds (q @ ord (q, known) S) = Inr q'"
    by (auto split: sum.splits)
  have "set (ord (q, known) S) = S"
    using assms resolve_name_finite [OF S] by (simp add: faithful_set)
  with Cons.IH [OF rest] resolve_name_subset [OF S] show ?case by auto
qed

lemma visit_extends:
  assumes "faithful ord" "visit ord m h optdepends p known q = Inr q'"
  shows "set q \<subseteq> set q' \<and> set q' \<subseteq> set q \<union> all_oids m"
proof -
  from assms(2) obtain ds q1 where
    q1: "enqueue ord m True known ds q = Inr q1"
    and opt: "(optdepends \<and> (\<exists>os. enqueue ord m False known os q1 = Inr q'))
              \<or> (\<not> optdepends \<and> q' = q1)"
    by (auto simp: visit_def split: sum.splits if_splits)
  note e1 = enqueue_extends [OF assms(1) q1]
  from opt show ?thesis
  proof
    assume "optdepends \<and> (\<exists>os. enqueue ord m False known os q1 = Inr q')"
    then obtain os where "enqueue ord m False known os q1 = Inr q'" by blast
    from enqueue_extends [OF assms(1) this] e1 show ?thesis by blast
  next
    assume "\<not> optdepends \<and> q' = q1"
    with e1 show ?thesis by simp
  qed
qed

lemma resolve_deps_loop_Nil:
  "resolve_deps_loop ord m h optdepends [] known = Some (Inr known)"
  by (subst resolve_deps_loop.simps) simp

lemma resolve_deps_loop_known:
  "p \<in> known \<Longrightarrow>
     resolve_deps_loop ord m h optdepends (p # rest) known
       = resolve_deps_loop ord m h optdepends rest known"
  by (subst resolve_deps_loop.simps) simp

lemma resolve_deps_loop_fail:
  "p \<notin> known \<Longrightarrow> visit ord m h optdepends p (insert p known) rest = Inl e \<Longrightarrow>
     resolve_deps_loop ord m h optdepends (p # rest) known = Some (Inl e)"
  by (subst resolve_deps_loop.simps) simp

lemma resolve_deps_loop_visit:
  "p \<notin> known \<Longrightarrow> visit ord m h optdepends p (insert p known) rest = Inr q' \<Longrightarrow>
     resolve_deps_loop ord m h optdepends (p # rest) known
       = resolve_deps_loop ord m h optdepends q' (insert p known)"
  by (subst resolve_deps_loop.simps) simp

lemma resolve_deps_loop_total:
  assumes f: "faithful ord" and B: "finite B" "all_oids m \<subseteq> B"
  shows "finite known \<Longrightarrow> set q \<subseteq> B \<Longrightarrow>
           \<exists>r. resolve_deps_loop ord m h optdepends q known = Some r
              \<and> (\<forall>K. r = Inr K \<longrightarrow> finite K \<and> known \<union> set q \<subseteq> K \<and> K \<subseteq> known \<union> B)"
proof (induction "card (B - known)" arbitrary: q known rule: less_induct)
  case less
  note outer = less.hyps
  from less.prems show ?case
  proof (induction q)
    case Nil
    then show ?case by (simp add: resolve_deps_loop_Nil)
  next
    case (Cons p rest)
    then have fin: "finite known" and pB: "p \<in> B" and restB: "set rest \<subseteq> B" by auto
    show ?case
    proof (cases "p \<in> known")
      case True
      from Cons.IH [OF fin restB] obtain r where
        r: "resolve_deps_loop ord m h optdepends rest known = Some r"
        and K: "\<forall>K. r = Inr K \<longrightarrow> finite K \<and> known \<union> set rest \<subseteq> K \<and> K \<subseteq> known \<union> B"
        by blast
      have "resolve_deps_loop ord m h optdepends (p # rest) known = Some r"
        using True r by (simp add: resolve_deps_loop_known)
      moreover have "\<forall>K. r = Inr K \<longrightarrow> finite K \<and> known \<union> set (p # rest) \<subseteq> K \<and> K \<subseteq> known \<union> B"
        using K True by auto
      ultimately show ?thesis by blast
    next
      case False
      show ?thesis
      proof (cases "visit ord m h optdepends p (insert p known) rest")
        case (Inl e)
        with False have "resolve_deps_loop ord m h optdepends (p # rest) known = Some (Inl e)"
          by (simp add: resolve_deps_loop_fail)
        then show ?thesis by simp
      next
        case (Inr q')
        note v = visit_extends [OF f Inr]
        have q'B: "set q' \<subseteq> B" using v restB B(2) by blast
        have "B - insert p known \<subset> B - known" using pB False by blast
        then have less: "card (B - insert p known) < card (B - known)"
          using B(1) by (simp add: psubset_card_mono)
        have fin': "finite (insert p known)" using fin by simp
        from outer [OF less fin' q'B] obtain r where
          r: "resolve_deps_loop ord m h optdepends q' (insert p known) = Some r"
          and K: "\<forall>K. r = Inr K \<longrightarrow>
                    finite K \<and> insert p known \<union> set q' \<subseteq> K \<and> K \<subseteq> insert p known \<union> B"
          by blast
        have "resolve_deps_loop ord m h optdepends (p # rest) known = Some r"
          using False Inr r by (simp add: resolve_deps_loop_visit)
        moreover have "\<forall>K. r = Inr K \<longrightarrow>
            finite K \<and> known \<union> set (p # rest) \<subseteq> K \<and> K \<subseteq> known \<union> B"
        proof (intro allI impI)
          fix K assume "r = Inr K"
          with K have "finite K" and lo: "insert p known \<union> set q' \<subseteq> K"
            and hi: "K \<subseteq> insert p known \<union> B" by blast+
          from lo v have "known \<union> set (p # rest) \<subseteq> K" by auto
          moreover from hi pB have "K \<subseteq> known \<union> B" by auto
          ultimately show "finite K \<and> known \<union> set (p # rest) \<subseteq> K \<and> K \<subseteq> known \<union> B"
            using \<open>finite K\<close> by blast
        qed
        ultimately show ?thesis by blast
      qed
    qed
  qed
qed

lemma resolve_deps_total:
  assumes "faithful ord"
  shows "\<exists>r. resolve_deps ord m h pkgs optdepends = Some r
           \<and> (\<forall>ks. r = Inr ks \<longrightarrow>
                 set pkgs \<subseteq> set ks \<and> set ks \<subseteq> set pkgs \<union> all_oids m \<and> distinct ks)"
proof -
  let ?B = "set pkgs \<union> all_oids m"
  have "finite ?B" by (simp add: finite_all_oids)
  from resolve_deps_loop_total [OF assms this, of m "{}" pkgs h optdepends]
  obtain r where r: "resolve_deps_loop ord m h optdepends pkgs {} = Some r"
    and K: "\<forall>K. r = Inr K \<longrightarrow> finite K \<and> set pkgs \<subseteq> K \<and> K \<subseteq> ?B" by auto
  show ?thesis
  proof (cases r)
    case (Inl e)
    with r show ?thesis by (simp add: resolve_deps_def)
  next
    case (Inr K')
    with K have fin: "finite K'" and lo: "set pkgs \<subseteq> K'" and hi: "K' \<subseteq> ?B" by auto
    have "set (ord ([], K') K') = K'" using assms fin by (simp add: faithful_set)
    moreover have "distinct (ord ([], K') K')" using assms fin by (simp add: faithful_distinct)
    ultimately show ?thesis using r Inr lo hi by (simp add: resolve_deps_def)
  qed
qed

section \<open>Lemmas: the example archives\<close>

lemmas model_defs =
  Mirror_init_def Repo_init_def initialize_db_def package_name_def basename_def
  path_join_def parse_desc_def parse_deps_def alpm_parse_def decode_def strip_def
  isspace_def lower_def lower_char_def upper_chars_def lower_chars_def setattr_def
  slots_def re_match_group_def bare_name_def excluded_def new_Package_def iter_def
  dd_append_def Package_init_def Let_def

lemma built_main:
  "\<exists>h. Mirror_init db_main heap0 [''core'', ''extra''] ''http://mirror/$repo/os/$arch'' [''x86_64'']
          = Inr (mirror_main, h)
       \<and> objs h 0 ''depends'' = PTuple [''glibc'']
       \<and> objs h 0 ''optdepends'' = PTuple [''nonexistent-pkg'']
       \<and> objs h 1 ''depends'' = PTuple []
       \<and> objs h 1 ''optdepends'' = PTuple []
       \<and> objs h 2 ''depends'' = PTuple [''missing-lib'']"
  by (simp add: model_defs db_main_def heap0_def mirror_main_def core_main_def extra_main_def)

lemma built_cycle:
  "\<exists>h. Mirror_init db_cycle heap0 [''core''] ''http://mirror/$repo/os/$arch'' [''x86_64'']
          = Inr (mirror_cycle, h)
       \<and> objs h 0 ''depends'' = PTuple [''b'']
       \<and> objs h 1 ''depends'' = PTuple [''a'']"
  by (simp add: model_defs db_cycle_def heap0_def mirror_cycle_def)

lemma faithful_ascending: "faithful ascending"
  by (simp add: faithful_def ascending_def)

section \<open>Claims about the record parser and the packages\<close>

text \<open>
  Claim C7, as the code has it.  \<^verbatim>\<open>Package.parse_deps\<close> first parses the file; when
  a line of the file does not decode as UTF-8 it raises \<^verbatim>\<open>UnicodeDecodeError\<close>.
  Otherwise there is a parsed mapping, and two cases.  When every field name of the
  mapping is a slot of the package and no value starts with a character of
  \<open>excluded\<close> (\<^verbatim>\<open><\<close>, \<^verbatim>\<open>>\<close>, \<^verbatim>\<open>=\<close>, \<^verbatim>\<open>:\<close>), \<^verbatim>\<open>parse_deps\<close> succeeds: it stores,
  under each field name, the sequence of the bare names of the field's values, and
  leaves every other attribute as it was.  Otherwise it raises, at the first field
  of the mapping that has a value starting with an excluded character or a name
  that is not a slot: \<^verbatim>\<open>AttributeError\<close> when one of the field's values starts with
  an excluded character (the match is computed before the attribute is set);
  when none does, \<^verbatim>\<open>TypeError\<close> for the key \<^verbatim>\<open>None\<close> and for the name
  \<^verbatim>\<open>__class__\<close>, and \<^verbatim>\<open>AttributeError\<close> for every other name that is not a slot.
  The bare name of a value is its longest leading run of characters outside
  \<open>excluded\<close>: it is a prefix of the value, holds no excluded character, and every
  such prefix is a prefix of it.  A value without excluded characters is its own
  bare name, and the bare name of \<^verbatim>\<open>glibc>=2.30\<close> is \<^verbatim>\<open>glibc\<close>.
\<close>

theorem parse_deps_stores_bare_names:
  "(if NotUtf8 \<in> set depsbuf then parse_deps self depsbuf = Inl UnicodeDecodeError
    else \<exists>es. alpm_parse depsbuf = Inr es \<and>
      (if \<forall>(k, v) \<in> set es. k \<in> Some ` set slots \<and> (\<forall>e \<in> set v. hd e \<notin> excluded)
       then \<exists>self'. parse_deps self depsbuf = Inr self'
              \<and> (\<forall>a v. (Some a, v) \<in> set es \<longrightarrow> self' a = PTuple (map bare_name v))
              \<and> (\<forall>a. Some a \<notin> fst ` set es \<longrightarrow> self' a = self a)
       else \<exists>pre k v post. es = pre @ (k, v) # post
              \<and> (\<forall>(k', v') \<in> set pre.
                    k' \<in> Some ` set slots \<and> (\<forall>e \<in> set v'. hd e \<notin> excluded))
              \<and> (k \<notin> Some ` set slots \<or> (\<exists>e \<in> set v. hd e \<in> excluded))
              \<and> parse_deps self depsbuf
                   = Inl (if \<exists>e \<in> set v. hd e \<in> excluded then AttributeError
                          else if k = None \<or> k = Some ''__class__'' then TypeError
                          else AttributeError)))
   \<and> prefix (bare_name e) e
   \<and> (\<forall>c \<in> set (bare_name e). c \<notin> excluded)
   \<and> (\<forall>r. prefix r e \<and> (\<forall>c \<in> set r. c \<notin> excluded) \<longrightarrow> prefix r (bare_name e))
   \<and> ((\<forall>c \<in> set e. c \<notin> excluded) \<longrightarrow> bare_name e = e)
   \<and> bare_name ''glibc>=2.30'' = ''glibc''"
proof -
  have first: "if NotUtf8 \<in> set depsbuf then parse_deps self depsbuf = Inl UnicodeDecodeError
    else \<exists>es. alpm_parse depsbuf = Inr es \<and>
      (if \<forall>(k, v) \<in> set es. k \<in> Some ` set slots \<and> (\<forall>e \<in> set v. hd e \<notin> excluded)
       then \<exists>self'. parse_deps self depsbuf = Inr self'
              \<and> (\<forall>a v. (Some a, v) \<in> set es \<longrightarrow> self' a = PTuple (map bare_name v))
              \<and> (\<forall>a. Some a \<notin> fst ` set es \<longrightarrow> self' a = self a)
       else \<exists>pre k v post. es = pre @ (k, v) # post
              \<and> (\<forall>(k', v') \<in> set pre.
                    k' \<in> Some ` set slots \<and> (\<forall>e \<in> set v'. hd e \<notin> excluded))
              \<and> (k \<notin> Some ` set slots \<or> (\<exists>e \<in> set v. hd e \<in> excluded))
              \<and> parse_deps self depsbuf
                   = Inl (if \<exists>e \<in> set v. hd e \<in> excluded then AttributeError
                          else if k = None \<or> k = Some ''__class__'' then TypeError
                          else AttributeError))"
  proof (cases "NotUtf8 \<in> set depsbuf")
    case True
    then have "alpm_parse depsbuf = Inl UnicodeDecodeError"
      unfolding alpm_parse_def by (rule alpm_loop_NotUtf8)
    then have "parse_deps self depsbuf = Inl UnicodeDecodeError"
      by (simp add: parse_deps_def)
    then show ?thesis unfolding if_P [OF True] .
  next
    case decodes: False
    then obtain es where es: "alpm_parse depsbuf = Inr es"
      unfolding alpm_parse_def using alpm_loop_Utf8 by blast
    have ok: "entries_ok es" using es by (rule alpm_parse_ok)
    have nonempty: "\<And>k v e. (k, v) \<in> set es \<Longrightarrow> e \<in> set v \<Longrightarrow> e \<noteq> []"
      using ok unfolding entries_ok_def by blast
    have pd: "parse_deps self depsbuf = parse_deps_items self es"
      by (simp add: parse_deps_def es)
    have body: "if \<forall>(k, v) \<in> set es. k \<in> Some ` set slots \<and> (\<forall>e \<in> set v. hd e \<notin> excluded)
       then \<exists>self'. parse_deps self depsbuf = Inr self'
              \<and> (\<forall>a v. (Some a, v) \<in> set es \<longrightarrow> self' a = PTuple (map bare_name v))
              \<and> (\<forall>a. Some a \<notin> fst ` set es \<longrightarrow> self' a = self a)
       else \<exists>pre k v post. es = pre @ (k, v) # post
              \<and> (\<forall>(k', v') \<in> set pre.
                    k' \<in> Some ` set slots \<and> (\<forall>e \<in> set v'. hd e \<notin> excluded))
              \<and> (k \<notin> Some ` set slots \<or> (\<exists>e \<in> set v. hd e \<in> excluded))
              \<and> parse_deps self depsbuf
                   = Inl (if \<exists>e \<in> set v. hd e \<in> excluded then AttributeError
                          else if k = None \<or> k = Some ''__class__'' then TypeError
                          else AttributeError)"
    proof (cases "\<forall>(k, v) \<in> set es. k \<in> Some ` set slots \<and> (\<forall>e \<in> set v. hd e \<notin> excluded)")
      case True
      then have all: "\<forall>(k, v) \<in> set es.
          k \<in> Some ` set slots \<and> (\<forall>e \<in> set v. e \<noteq> [] \<and> hd e \<notin> excluded)"
        using nonempty by blast
      have "distinct (map fst es)" using ok by (simp add: entries_ok_def)
      from this all have "\<exists>self'. parse_deps_items self es = Inr self'
             \<and> (\<forall>a v. (Some a, v) \<in> set es \<longrightarrow> self' a = PTuple (map bare_name v))
             \<and> (\<forall>a. Some a \<notin> fst ` set es \<longrightarrow> self' a = self a)"
        by (rule parse_deps_items_ok)
      then show ?thesis unfolding pd if_P [OF True] .
    next
      case bad: False
      define good :: "string option \<times> string list \<Rightarrow> bool" where
        "good = (\<lambda>(k, v). k \<in> Some ` set slots \<and> (\<forall>e \<in> set v. hd e \<notin> excluded))"
      from bad have "\<exists>x \<in> set es. \<not> good x" unfolding good_def by blast
      then obtain pre x post where sp: "es = pre @ x # post" and x: "\<not> good x"
        and before: "\<forall>y \<in> set pre. \<not> \<not> good y"
        using split_list_first_prop [of es "\<lambda>x. \<not> good x"] by blast
      obtain k v where kv: "x = (k, v)" by (cases x)
      have pre_good: "\<forall>(k', v') \<in> set pre.
          k' \<in> Some ` set slots \<and> (\<forall>e \<in> set v'. hd e \<notin> excluded)"
        using before unfolding good_def by blast
      have mem: "set pre \<subseteq> set es" unfolding sp by auto
      have "\<And>k' v' e. (k', v') \<in> set pre \<Longrightarrow> e \<in> set v' \<Longrightarrow> e \<noteq> []"
        using nonempty mem by blast
      with pre_good have pre_ok: "\<forall>(k', v') \<in> set pre.
          k' \<in> Some ` set slots \<and> (\<forall>e \<in> set v'. e \<noteq> [] \<and> hd e \<notin> excluded)"
        by blast
      have v_ok: "\<forall>e \<in> set v. e \<noteq> []" using nonempty [of k v] sp kv by simp
      have k_bad: "k \<notin> Some ` set slots \<or> (\<exists>e \<in> set v. hd e \<in> excluded)"
        using x kv unfolding good_def by blast
      have "parse_deps self depsbuf
              = Inl (if \<exists>e \<in> set v. hd e \<in> excluded then AttributeError
                     else if k = None \<or> k = Some ''__class__'' then TypeError
                     else AttributeError)"
        unfolding pd sp kv using pre_ok v_ok k_bad by (rule parse_deps_items_first_bad)
      with sp kv pre_good k_bad show ?thesis unfolding if_not_P [OF bad] by blast
    qed
    with es show ?thesis unfolding if_not_P [OF decodes] by blast
  qed
  have whole: "(\<forall>c \<in> set e. c \<notin> excluded) \<longrightarrow> bare_name e = e"
    by (simp add: bare_name_def)
  have example: "bare_name ''glibc>=2.30'' = ''glibc''"
    by (simp add: bare_name_def excluded_def)
  from first bare_name_longest [of e] whole example show ?thesis by blast
qed

text \<open>
  An instance of C7 as amended: a dependency file with a versioned and a plain
  dependency and a provided name.
\<close>

theorem parse_deps_stores_bare_names_witness:
  "\<exists>self'. parse_deps (Package_init ''bash'')
              (map Utf8 [''%DEPENDS%'', ''glibc>=2.30'', ''readline'', [], ''%PROVIDES%'', ''sh''])
            = Inr self'
     \<and> self' ''depends'' = PTuple [''glibc'', ''readline'']
     \<and> self' ''provides'' = PTuple [''sh'']
     \<and> self' ''name'' = PStr ''bash''"
proof -
  let ?buf = "map Utf8 [''%DEPENDS%'', ''glibc>=2.30'', ''readline'', [], ''%PROVIDES%'', ''sh'']"
  let ?es = "[(Some ''depends'', [''glibc>=2.30'', ''readline'']), (Some ''provides'', [''sh''])]"
  have es: "alpm_parse ?buf = Inr ?es"
    by (simp add: alpm_parse_def decode_def strip_def isspace_def lower_def lower_char_def
        upper_chars_def lower_chars_def Let_def)
  have dec: "NotUtf8 \<notin> set ?buf" by simp
  have hyp: "\<forall>(k, v) \<in> set ?es.
      k \<in> Some ` set slots \<and> (\<forall>e \<in> set v. hd e \<notin> excluded)"
    by (simp add: slots_def excluded_def)
  from parse_deps_stores_bare_names [of ?buf "Package_init ''bash''" "''glibc''"]
  have "if NotUtf8 \<in> set ?buf
        then parse_deps (Package_init ''bash'') ?buf = Inl UnicodeDecodeError
        else \<exists>es. alpm_parse ?buf = Inr es \<and>
      (if \<forall>(k, v) \<in> set es. k \<in> Some ` set slots \<and> (\<forall>e \<in> set v. hd e \<notin> excluded)
       then \<exists>self'. parse_deps (Package_init ''bash'') ?buf = Inr self'
              \<and> (\<forall>a v. (Some a, v) \<in> set es \<longrightarrow> self' a = PTuple (map bare_name v))
              \<and> (\<forall>a. Some a \<notin> fst ` set es \<longrightarrow> self' a = Package_init ''bash'' a)
       else \<exists>pre k v post. es = pre @ (k, v) # post
              \<and> (\<forall>(k', v') \<in> set pre.
                    k' \<in> Some ` set slots \<and> (\<forall>e \<in> set v'. hd e \<notin> excluded))
              \<and> (k \<notin> Some ` set slots \<or> (\<exists>e \<in> set v. hd e \<in> excluded))
              \<and> parse_deps (Package_init ''bash'') ?buf
                   = Inl (if \<exists>e \<in> set v. hd e \<in> excluded then AttributeError
                          else if k = None \<or> k = Some ''__class__'' then TypeError
                          else AttributeError))"
    by (rule conjunct1)
  then obtain es where e1: "alpm_parse ?buf = Inr es" and body:
      "if \<forall>(k, v) \<in> set es. k \<in> Some ` set slots \<and> (\<forall>e \<in> set v. hd e \<notin> excluded)
       then \<exists>self'. parse_deps (Package_init ''bash'') ?buf = Inr self'
              \<and> (\<forall>a v. (Some a, v) \<in> set es \<longrightarrow> self' a = PTuple (map bare_name v))
              \<and> (\<forall>a. Some a \<notin> fst ` set es \<longrightarrow> self' a = Package_init ''bash'' a)
       else \<exists>pre k v post. es = pre @ (k, v) # post
              \<and> (\<forall>(k', v') \<in> set pre.
                    k' \<in> Some ` set slots \<and> (\<forall>e \<in> set v'. hd e \<notin> excluded))
              \<and> (k \<notin> Some ` set slots \<or> (\<exists>e \<in> set v. hd e \<in> excluded))
              \<and> parse_deps (Package_init ''bash'') ?buf
                   = Inl (if \<exists>e \<in> set v. hd e \<in> excluded then AttributeError
                          else if k = None \<or> k = Some ''__class__'' then TypeError
                          else AttributeError)"
    unfolding if_not_P [OF dec] by blast
  from e1 es have eq: "es = ?es" by simp
  from body have "\<exists>self'. parse_deps (Package_init ''bash'') ?buf = Inr self'
           \<and> (\<forall>a v. (Some a, v) \<in> set ?es \<longrightarrow> self' a = PTuple (map bare_name v))
           \<and> (\<forall>a. Some a \<notin> fst ` set ?es \<longrightarrow> self' a = Package_init ''bash'' a)"
    unfolding eq if_P [OF hyp] .
  then obtain self' where r: "parse_deps (Package_init ''bash'') ?buf = Inr self'"
    and stored: "\<forall>a v. (Some a, v) \<in> set ?es \<longrightarrow> self' a = PTuple (map bare_name v)"
    and kept: "\<forall>a. Some a \<notin> fst ` set ?es \<longrightarrow> self' a = Package_init ''bash'' a"
    by blast
  have "self' ''depends'' = PTuple (map bare_name [''glibc>=2.30'', ''readline''])"
    using stored by simp
  moreover have "self' ''provides'' = PTuple (map bare_name [''sh''])"
    using stored by simp
  moreover have "self' ''name'' = Package_init ''bash'' ''name''"
    using kept by simp
  ultimately show ?thesis using r
    by (simp add: bare_name_def excluded_def Package_init_def)
qed

text \<open>
  Claim C7 as stated fails, since it speaks of every parsed dependency mapping: a
  dependency file with the unknown field \<^verbatim>\<open>%FOO%\<close>, and one whose value \<^verbatim>\<open>>=1.0\<close>
  starts with an excluded character, make \<^verbatim>\<open>parse_deps\<close> raise \<^verbatim>\<open>AttributeError\<close>
  instead of storing a sequence under the field name.
\<close>

theorem parse_deps_unknown_field_fails:
  "parse_deps (Package_init ''bash'') [Utf8 ''%FOO%'', Utf8 ''bar''] = Inl AttributeError
   \<and> parse_deps (Package_init ''bash'') [Utf8 ''%DEPENDS%'', Utf8 ''>=1.0''] = Inl AttributeError"
  by (simp add: parse_deps_def alpm_parse_def decode_def strip_def isspace_def lower_def
      lower_char_def upper_chars_def lower_chars_def setattr_def slots_def re_match_group_def
      bare_name_def excluded_def Let_def)

text \<open>
  Claim C8, as the code has it.  Take an input whose first non-blank line is a value
  line: blank lines, then a line that is neither blank nor enclosed in \<^verbatim>\<open>%\<close>, then
  any lines.  When one of the lines that follow does not decode as UTF-8,
  \<^verbatim>\<open>alpm_parse\<close> raises \<^verbatim>\<open>UnicodeDecodeError\<close>.  Otherwise \<^verbatim>\<open>alpm_parse\<close> does
  not reject the input: it returns a mapping whose first key is \<^verbatim>\<open>None\<close>, with the
  value line as the first value stored under it.  That input is rejected only when
  the mapping is applied to a package:
  \<^verbatim>\<open>parse_desc\<close> raises \<^verbatim>\<open>TypeError\<close> (the attribute name is not a string), and
  \<^verbatim>\<open>parse_deps\<close> raises \<^verbatim>\<open>AttributeError\<close> when a value stored under \<^verbatim>\<open>None\<close>
  starts with a character of \<open>excluded\<close>, and \<^verbatim>\<open>TypeError\<close> when none does.
\<close>

theorem alpm_parse_value_before_marker:
  assumes "\<forall>l \<in> set pre. strip l = []"
    and "strip raw \<noteq> []"
    and "\<not> (hd (strip raw) = CHR ''%'' \<and> last (strip raw) = CHR ''%'')"
  shows "if NotUtf8 \<in> set rest
         then alpm_parse (map Utf8 pre @ Utf8 raw # rest) = Inl UnicodeDecodeError
         else \<exists>vs es.
                alpm_parse (map Utf8 pre @ Utf8 raw # rest) = Inr ((None, strip raw # vs) # es)
              \<and> parse_desc self (map Utf8 pre @ Utf8 raw # rest) = Inl TypeError
              \<and> parse_deps self (map Utf8 pre @ Utf8 raw # rest)
                  = Inl (if \<exists>e \<in> set (strip raw # vs). hd e \<in> excluded
                         then AttributeError else TypeError)"
proof -
  let ?file = "map Utf8 pre @ Utf8 raw # rest"
  have "alpm_parse ?file = alpm_loop (Utf8 raw # rest) None []"
    unfolding alpm_parse_def using assms(1) by (rule alpm_loop_blank)
  also have "\<dots> = alpm_loop rest None [(None, [strip raw])]"
    by (simp add: decode_def Let_def assms(2) assms(3))
  finally have eq: "alpm_parse ?file = alpm_loop rest None [(None, [strip raw])]" .
  show ?thesis
  proof (cases "NotUtf8 \<in> set rest")
    case True
    then have "alpm_loop rest None [(None, [strip raw])] = Inl UnicodeDecodeError"
      by (rule alpm_loop_NotUtf8)
    with eq have "alpm_parse ?file = Inl UnicodeDecodeError" by simp
    then show ?thesis unfolding if_P [OF True] .
  next
    case decodes: False
    then obtain es' where es': "alpm_loop rest None [(None, [strip raw])] = Inr es'"
      using alpm_loop_Utf8 by blast
    from alpm_loop_head [OF this] obtain vs es where "es' = (None, [strip raw] @ vs) # es"
      by blast
    with eq es' have shape: "alpm_parse ?file = Inr ((None, strip raw # vs) # es)" by simp
    from alpm_parse_ok [OF shape] have v_ok: "\<forall>e \<in> set (strip raw # vs). e \<noteq> []"
      unfolding entries_ok_def by auto
    have desc: "parse_desc self ?file = Inl TypeError"
      by (simp add: parse_desc_def shape setattr_def)
    have none: "None \<notin> Some ` set slots \<or> (\<exists>e \<in> set (strip raw # vs). hd e \<in> excluded)"
      by blast
    have "\<forall>(k', v') \<in> set ([] :: entries).
            k' \<in> Some ` set slots \<and> (\<forall>e \<in> set v'. e \<noteq> [] \<and> hd e \<notin> excluded)"
      by simp
    from parse_deps_items_first_bad [OF this v_ok none, of self es]
    have deps: "parse_deps self ?file
                  = Inl (if \<exists>e \<in> set (strip raw # vs). hd e \<in> excluded
                         then AttributeError else TypeError)"
      by (simp add: parse_deps_def shape)
    from shape desc deps show ?thesis unfolding if_not_P [OF decodes] by blast
  qed
qed

text \<open>An instance of C8 as amended: a blank line, a value line, then a marked field.\<close>

theorem alpm_parse_value_before_marker_witness:
  "alpm_parse (map Utf8 [[]] @ Utf8 ''bash'' # [Utf8 ''%NAME%'', Utf8 ''sh''])
     = Inr [(None, [''bash'']), (Some ''name'', [''sh''])]
   \<and> parse_desc (Package_init ''x'')
       (map Utf8 [[]] @ Utf8 ''bash'' # [Utf8 ''%NAME%'', Utf8 ''sh'']) = Inl TypeError
   \<and> parse_deps (Package_init ''x'')
       (map Utf8 [[]] @ Utf8 ''bash'' # [Utf8 ''%NAME%'', Utf8 ''sh'']) = Inl TypeError"
proof -
  let ?rest = "[Utf8 ''%NAME%'', Utf8 ''sh'']"
  let ?file = "map Utf8 [[]] @ Utf8 ''bash'' # ?rest"
  have blank: "\<forall>l \<in> set [[]]. strip l = []" by (simp add: strip_def)
  have nonblank: "strip ''bash'' \<noteq> []" by (simp add: strip_def isspace_def)
  have unmarked: "\<not> (hd (strip ''bash'') = CHR ''%'' \<and> last (strip ''bash'') = CHR ''%'')"
    by (simp add: strip_def isspace_def)
  have dec: "NotUtf8 \<notin> set ?rest" by simp
  have parsed: "alpm_parse ?file = Inr [(None, [''bash'']), (Some ''name'', [''sh''])]"
    by (simp add: alpm_parse_def decode_def strip_def isspace_def lower_def lower_char_def
        upper_chars_def lower_chars_def Let_def)
  from alpm_parse_value_before_marker [OF blank nonblank unmarked, of ?rest "Package_init ''x''"]
  obtain vs es where shape: "alpm_parse ?file = Inr ((None, strip ''bash'' # vs) # es)"
    and desc: "parse_desc (Package_init ''x'') ?file = Inl TypeError"
    and deps: "parse_deps (Package_init ''x'') ?file
                 = Inl (if \<exists>e \<in> set (strip ''bash'' # vs). hd e \<in> excluded
                        then AttributeError else TypeError)"
    unfolding if_not_P [OF dec] by blast
  from shape parsed have "strip ''bash'' # vs = [''bash'']" by simp
  with deps have "parse_deps (Package_init ''x'') ?file = Inl TypeError"
    by (simp add: excluded_def)
  with parsed desc show ?thesis by blast
qed

text \<open>
  Claim C8 as stated fails: on the one-line input \<^verbatim>\<open>bash\<close> the parser returns a
  mapping that stores the line under the key \<^verbatim>\<open>None\<close>.
\<close>

theorem alpm_parse_accepts_value_before_marker:
  "alpm_parse [Utf8 ''bash''] = Inr [(None, [''bash''])]"
  by (simp add: alpm_parse_def decode_def strip_def isspace_def Let_def)

text \<open>
  Claim C9, as the code has it.  \<^verbatim>\<open>Package.parse_desc\<close> first parses the file; when
  a line of the file does not decode as UTF-8 it raises \<^verbatim>\<open>UnicodeDecodeError\<close>.
  Otherwise there is a parsed mapping, and two cases.  When every field name of the
  mapping is a slot of the package, \<^verbatim>\<open>parse_desc\<close> succeeds; it stores the full value
  sequence for \<^verbatim>\<open>groups\<close> and the first value only for every other field, and leaves
  every other attribute as it was.  Otherwise a field name outside the slots is not
  ignored: \<^verbatim>\<open>parse_desc\<close> raises at the first such field of the mapping,
  \<^verbatim>\<open>TypeError\<close> for the key \<^verbatim>\<open>None\<close> and for the name \<^verbatim>\<open>__class__\<close>, and
  \<^verbatim>\<open>AttributeError\<close> for every other name.
\<close>

theorem parse_desc_known_fields:
  "(if NotUtf8 \<in> set descbuf then parse_desc self descbuf = Inl UnicodeDecodeError
    else \<exists>es. alpm_parse descbuf = Inr es \<and>
      (if \<forall>(k, v) \<in> set es. k \<in> Some ` set slots
       then \<exists>self'. parse_desc self descbuf = Inr self'
              \<and> (\<forall>a v. (Some a, v) \<in> set es \<longrightarrow>
                    v \<noteq> [] \<and> self' a = (if a = ''groups'' then PTuple v else PStr (hd v)))
              \<and> (\<forall>a. Some a \<notin> fst ` set es \<longrightarrow> self' a = self a)
       else \<exists>pre k v post. es = pre @ (k, v) # post
              \<and> (\<forall>(k', v') \<in> set pre. k' \<in> Some ` set slots)
              \<and> k \<notin> Some ` set slots
              \<and> parse_desc self descbuf
                   = Inl (if k = None \<or> k = Some ''__class__'' then TypeError
                          else AttributeError)))"
proof (cases "NotUtf8 \<in> set descbuf")
  case True
  then have "alpm_parse descbuf = Inl UnicodeDecodeError"
    unfolding alpm_parse_def by (rule alpm_loop_NotUtf8)
  then have "parse_desc self descbuf = Inl UnicodeDecodeError"
    by (simp add: parse_desc_def)
  then show ?thesis unfolding if_P [OF True] .
next
  case decodes: False
  then obtain es where es: "alpm_parse descbuf = Inr es"
    unfolding alpm_parse_def using alpm_loop_Utf8 by blast
  have ok: "entries_ok es" using es by (rule alpm_parse_ok)
  have nonempty: "\<And>k v. (k, v) \<in> set es \<Longrightarrow> v \<noteq> []"
    using ok unfolding entries_ok_def by blast
  have pd: "parse_desc self descbuf = parse_desc_items self es"
    by (simp add: parse_desc_def es)
  have body: "if \<forall>(k, v) \<in> set es. k \<in> Some ` set slots
       then \<exists>self'. parse_desc self descbuf = Inr self'
              \<and> (\<forall>a v. (Some a, v) \<in> set es \<longrightarrow>
                    v \<noteq> [] \<and> self' a = (if a = ''groups'' then PTuple v else PStr (hd v)))
              \<and> (\<forall>a. Some a \<notin> fst ` set es \<longrightarrow> self' a = self a)
       else \<exists>pre k v post. es = pre @ (k, v) # post
              \<and> (\<forall>(k', v') \<in> set pre. k' \<in> Some ` set slots)
              \<and> k \<notin> Some ` set slots
              \<and> parse_desc self descbuf
                   = Inl (if k = None \<or> k = Some ''__class__'' then TypeError
                          else AttributeError)"
  proof (cases "\<forall>(k, v) \<in> set es. k \<in> Some ` set slots")
    case True
    then have "\<forall>(k, v) \<in> set es. k \<in> Some ` set slots \<and> v \<noteq> []"
      using nonempty by blast
    moreover have "distinct (map fst es)" using ok by (simp add: entries_ok_def)
    ultimately obtain self' where "parse_desc_items self es = Inr self'"
      and "\<forall>a v. (Some a, v) \<in> set es \<longrightarrow>
                 self' a = (if a = ''groups'' then PTuple v else PStr (hd v))"
      and "\<forall>a. Some a \<notin> fst ` set es \<longrightarrow> self' a = self a"
      using parse_desc_items_ok [of es self] by blast
    then have "\<exists>self'. parse_desc_items self es = Inr self'
           \<and> (\<forall>a v. (Some a, v) \<in> set es \<longrightarrow>
                 v \<noteq> [] \<and> self' a = (if a = ''groups'' then PTuple v else PStr (hd v)))
           \<and> (\<forall>a. Some a \<notin> fst ` set es \<longrightarrow> self' a = self a)"
      using nonempty by blast
    then show ?thesis unfolding pd if_P [OF True] .
  next
    case bad: False
    define known :: "string option \<times> string list \<Rightarrow> bool" where
      "known = (\<lambda>(k, v). k \<in> Some ` set slots)"
    from bad have "\<exists>x \<in> set es. \<not> known x" unfolding known_def by blast
    then obtain pre x post where sp: "es = pre @ x # post" and x: "\<not> known x"
      and before: "\<forall>y \<in> set pre. \<not> \<not> known y"
      using split_list_first_prop [of es "\<lambda>x. \<not> known x"] by blast
    obtain k v where kv: "x = (k, v)" by (cases x)
    have pre_known: "\<forall>(k', v') \<in> set pre. k' \<in> Some ` set slots"
      using before unfolding known_def by blast
    have mem: "set pre \<subseteq> set es" unfolding sp by auto
    have "\<And>k' v'. (k', v') \<in> set pre \<Longrightarrow> v' \<noteq> []"
      using nonempty mem by blast
    with pre_known have pre_ok: "\<forall>(k', v') \<in> set pre. k' \<in> Some ` set slots \<and> v' \<noteq> []"
      by blast
    have v_ok: "v \<noteq> []" using nonempty [of k v] sp kv by simp
    have k_bad: "k \<notin> Some ` set slots" using x kv unfolding known_def by blast
    have "parse_desc self descbuf
            = Inl (if k = None \<or> k = Some ''__class__'' then TypeError else AttributeError)"
      unfolding pd sp kv using pre_ok k_bad v_ok by (rule parse_desc_items_first_bad)
    with sp kv pre_known k_bad show ?thesis unfolding if_not_P [OF bad] by blast
  qed
  with es show ?thesis unfolding if_not_P [OF decodes] by blast
qed

text \<open>
  An instance of C9 as amended: a field with two values, of which the first is kept,
  and the groups.
\<close>

theorem parse_desc_known_fields_witness:
  "\<exists>self'. parse_desc (Package_init ''bash'')
              (map Utf8 [''%LICENSE%'', ''GPL'', ''MIT'', [], ''%GROUPS%'', ''base'', ''base-devel''])
            = Inr self'
     \<and> self' ''license'' = PStr ''GPL''
     \<and> self' ''groups'' = PTuple [''base'', ''base-devel'']
     \<and> self' ''name'' = PStr ''bash''"
proof -
  let ?buf = "map Utf8 [''%LICENSE%'', ''GPL'', ''MIT'', [], ''%GROUPS%'', ''base'', ''base-devel'']"
  let ?es = "[(Some ''license'', [''GPL'', ''MIT'']), (Some ''groups'', [''base'', ''base-devel''])]"
  have es: "alpm_parse ?buf = Inr ?es"
    by (simp add: alpm_parse_def decode_def strip_def isspace_def lower_def lower_char_def
        upper_chars_def lower_chars_def Let_def)
  have dec: "NotUtf8 \<notin> set ?buf" by simp
  have hyp: "\<forall>(k, v) \<in> set ?es. k \<in> Some ` set slots"
    by (simp add: slots_def)
  from parse_desc_known_fields [of ?buf "Package_init ''bash''"]
  obtain es where e1: "alpm_parse ?buf = Inr es" and body:
      "if \<forall>(k, v) \<in> set es. k \<in> Some ` set slots
       then \<exists>self'. parse_desc (Package_init ''bash'') ?buf = Inr self'
              \<and> (\<forall>a v. (Some a, v) \<in> set es \<longrightarrow>
                    v \<noteq> [] \<and> self' a = (if a = ''groups'' then PTuple v else PStr (hd v)))
              \<and> (\<forall>a. Some a \<notin> fst ` set es \<longrightarrow> self' a = Package_init ''bash'' a)
       else \<exists>pre k v post. es = pre @ (k, v) # post
              \<and> (\<forall>(k', v') \<in> set pre. k' \<in> Some ` set slots)
              \<and> k \<notin> Some ` set slots
              \<and> parse_desc (Package_init ''bash'') ?buf
                   = Inl (if k = None \<or> k = Some ''__class__'' then TypeError
                          else AttributeError)"
    unfolding if_not_P [OF dec] by blast
  from e1 es have eq: "es = ?es" by simp
  from body have "\<exists>self'. parse_desc (Package_init ''bash'') ?buf = Inr self'
           \<and> (\<forall>a v. (Some a, v) \<in> set ?es \<longrightarrow>
                 v \<noteq> [] \<and> self' a = (if a = ''groups'' then PTuple v else PStr (hd v)))
           \<and> (\<forall>a. Some a \<notin> fst ` set ?es \<longrightarrow> self' a = Package_init ''bash'' a)"
    unfolding eq if_P [OF hyp] .
  then obtain self' where r: "parse_desc (Package_init ''bash'') ?buf = Inr self'"
    and stored: "\<forall>a v. (Some a, v) \<in> set ?es \<longrightarrow>
           v \<noteq> [] \<and> self' a = (if a = ''groups'' then PTuple v else PStr (hd v))"
    and kept: "\<forall>a. Some a \<notin> fst ` set ?es \<longrightarrow> self' a = Package_init ''bash'' a"
    by blast
  have "self' ''license'' = PStr ''GPL''" using stored by simp
  moreover have "self' ''groups'' = PTuple [''base'', ''base-devel'']"
    using stored by simp
  moreover have "self' ''name'' = Package_init ''bash'' ''name''"
    using kept by simp
  ultimately show ?thesis using r by (simp add: Package_init_def)
qed

text \<open>
  Claim C9 as stated fails: a metadata file with the unknown field \<^verbatim>\<open>%FOO%\<close> makes
  \<^verbatim>\<open>parse_desc\<close> raise \<^verbatim>\<open>AttributeError\<close>, and one with the field \<^verbatim>\<open>%__CLASS__%\<close>
  makes it raise \<^verbatim>\<open>TypeError\<close>.
\<close>

theorem parse_desc_unknown_field_fails:
  "parse_desc (Package_init ''bash'') [Utf8 ''%FOO%'', Utf8 ''bar''] = Inl AttributeError
   \<and> parse_desc (Package_init ''bash'') [Utf8 ''%__CLASS__%'', Utf8 ''bar''] = Inl TypeError"
  by (simp add: parse_desc_def alpm_parse_def decode_def strip_def isspace_def lower_def
      lower_char_def upper_chars_def lower_chars_def setattr_def slots_def Let_def)

section \<open>Claims about name resolution\<close>

text \<open>
  Claim C1.  On every mirror that \<^verbatim>\<open>Mirror.__init__\<close> builds, \<^verbatim>\<open>resolve_name\<close>
  returns the union, over all catalogs with a match set for the name, of the
  packages that the match set names in that same catalog (\<open>spec_resolveName\<close>); only
  when that union is empty and the call is strict does it raise instead.  In
  particular, when the mirror has two catalogs and each holds a package of that very
  name, the result is the set of these two objects, which are distinct: a set of
  size 2.
\<close>

theorem resolve_name_is_union:
  assumes "Mirror_init db h0 repo_names srv archs = Inr (m, h)"
  shows "resolve_name m pkgname important =
           (if spec_resolveName m pkgname = {} \<and> important
            then Inl (ValueError (pkgname @ '' not found in any repo''))
            else Inr (spec_resolveName m pkgname))
         \<and> (\<forall>k1 r1 k2 r2 i1 i2.
               repos m = [(k1, r1), (k2, r2)]
               \<and> map_of (packages r1) pkgname = Some i1
               \<and> map_of (packages r2) pkgname = Some i2
               \<longrightarrow> resolve_name m pkgname important = Inr {i1, i2}
                   \<and> i1 \<noteq> i2 \<and> card {i1, i2} = 2)"
proof -
  note ok = Mirror_init_ok [OF assms]
  have repos_ok: "\<forall>r \<in> snd ` set (repos m). repo_ok r"
    using ok by (simp add: mirror_ok_def)
  note spec = resolve_name_spec [OF repos_ok, of pkgname important]
  have two: "resolve_name m pkgname important = Inr {i1, i2} \<and> i1 \<noteq> i2 \<and> card {i1, i2} = 2"
    if m: "repos m = [(k1, r1), (k2, r2)]"
      and i1: "map_of (packages r1) pkgname = Some i1"
      and i2: "map_of (packages r2) pkgname = Some i2"
    for k1 r1 k2 r2 i1 i2
  proof -
    have in1: "pkgname \<in> fst ` set (packages r1)" and in2: "pkgname \<in> fst ` set (packages r2)"
      using i1 i2 map_of_is_Some by fast+
    have c1: "spec_contribution r1 pkgname = {i1}"
      using in1 i1 by (auto simp: spec_contribution_def spec_match_set_def)
    have c2: "spec_contribution r2 pkgname = {i2}"
      using in2 i2 by (auto simp: spec_contribution_def spec_match_set_def)
    have u: "spec_resolveName m pkgname = {i1, i2}"
      using c1 c2 m by (auto simp: spec_resolveName_def)
    have "oids r1 \<inter> oids r2 = {}" using ok m by (simp add: mirror_ok_def)
    moreover have "i1 \<in> oids r1" using c1 spec_contribution_subset [of r1 pkgname] by simp
    moreover have "i2 \<in> oids r2" using c2 spec_contribution_subset [of r2 pkgname] by simp
    ultimately have ne: "i1 \<noteq> i2" by auto
    from spec u ne show ?thesis by simp
  qed
  from spec two show ?thesis by blast
qed

text \<open>
  An instance of C1: the mirror built from \<open>db_main\<close> has two catalogs with a
  package named \<^verbatim>\<open>bash\<close> each, and \<^verbatim>\<open>resolve_name\<close> returns both objects.
\<close>

theorem resolve_name_is_union_witness:
  "\<exists>m h. Mirror_init db_main heap0 [''core'', ''extra''] ''http://mirror/$repo/os/$arch''
            [''x86_64''] = Inr (m, h)
         \<and> resolve_name m ''bash'' True = Inr {0, 3}
         \<and> spec_resolveName m ''bash'' = {0, 3}"
proof -
  from built_main obtain h where
    b: "Mirror_init db_main heap0 [''core'', ''extra''] ''http://mirror/$repo/os/$arch''
          [''x86_64''] = Inr (mirror_main, h)" by blast
  note t = resolve_name_is_union [OF b, of "''bash''" True]
  have r: "repos mirror_main
      = [((''core'', ''x86_64''), core_main), ((''extra'', ''x86_64''), extra_main)]"
    by (simp add: mirror_main_def)
  have "map_of (packages core_main) ''bash'' = Some 0" by (simp add: core_main_def)
  moreover have "map_of (packages extra_main) ''bash'' = Some 3" by (simp add: extra_main_def)
  ultimately have res: "resolve_name mirror_main ''bash'' True = Inr {0, 3}"
    using t r by blast
  with t have "spec_resolveName mirror_main ''bash'' = {0, 3}"
    by (simp split: if_splits)
  with b res show ?thesis by blast
qed

text \<open>
  Claim C2.  On every mirror that \<^verbatim>\<open>Mirror.__init__\<close> builds: when the name is a key
  of none of the three dictionaries of any catalog, the strict call raises a
  \<^verbatim>\<open>ValueError\<close> whose message names the identifier and the lenient call returns the
  empty set; when some catalog has the name as a key, the call returns a non-empty
  set, strict or not.
\<close>

theorem resolve_name_strictness:
  assumes "Mirror_init db h0 repo_names srv archs = Inr (m, h)"
  shows "((\<forall>r \<in> snd ` set (repos m). \<not> Repo_contains r pkgname)
            \<longrightarrow> resolve_name m pkgname True
                  = Inl (ValueError (pkgname @ '' not found in any repo''))
                \<and> resolve_name m pkgname False = Inr {})
         \<and> ((\<exists>r \<in> snd ` set (repos m). Repo_contains r pkgname)
            \<longrightarrow> (\<exists>S. S \<noteq> {} \<and> resolve_name m pkgname important = Inr S))"
proof -
  note ok = Mirror_init_ok [OF assms]
  have repos_ok: "\<forall>r \<in> snd ` set (repos m). repo_ok r"
    using ok by (simp add: mirror_ok_def)
  have none: "resolve_name m pkgname True = Inl (ValueError (pkgname @ '' not found in any repo''))
      \<and> resolve_name m pkgname False = Inr {}"
    if "\<forall>r \<in> snd ` set (repos m). \<not> Repo_contains r pkgname"
    using resolve_name_unmatched [OF that] by simp
  have some: "\<exists>S. S \<noteq> {} \<and> resolve_name m pkgname important = Inr S"
    if "\<exists>r \<in> snd ` set (repos m). Repo_contains r pkgname"
  proof -
    from that obtain r where r: "r \<in> snd ` set (repos m)" and c: "Repo_contains r pkgname"
      by blast
    from repos_ok r have "repo_ok r" by blast
    from spec_contribution_nonempty [OF this c] r
    have "spec_resolveName m pkgname \<noteq> {}" by (auto simp: spec_resolveName_def)
    with resolve_name_spec [OF repos_ok, of pkgname important] show ?thesis by simp
  qed
  from none some show ?thesis by blast
qed

text \<open>
  An instance of C2 on the mirror built from \<open>db_main\<close>: \<^verbatim>\<open>missing\<close> is a key in no
  catalog, and the group \<^verbatim>\<open>base\<close> is a key in \<^verbatim>\<open>core\<close>.
\<close>

theorem resolve_name_strictness_witness:
  "\<exists>m h. Mirror_init db_main heap0 [''core'', ''extra''] ''http://mirror/$repo/os/$arch''
            [''x86_64''] = Inr (m, h)
         \<and> resolve_name m ''missing'' True = Inl (ValueError ''missing not found in any repo'')
         \<and> resolve_name m ''missing'' False = Inr {}
         \<and> (\<exists>S. S \<noteq> {} \<and> resolve_name m ''base'' True = Inr S)"
proof -
  from built_main obtain h where
    b: "Mirror_init db_main heap0 [''core'', ''extra''] ''http://mirror/$repo/os/$arch''
          [''x86_64''] = Inr (mirror_main, h)" by blast
  have no: "\<forall>r \<in> snd ` set (repos mirror_main). \<not> Repo_contains r ''missing''"
    by (simp add: mirror_main_def core_main_def extra_main_def Repo_contains_def)
  have yes: "\<exists>r \<in> snd ` set (repos mirror_main). Repo_contains r ''base''"
    by (simp add: mirror_main_def core_main_def extra_main_def Repo_contains_def)
  from resolve_name_strictness [OF b, of "''missing''" True] no
  have "resolve_name mirror_main ''missing'' True
          = Inl (ValueError (''missing'' @ '' not found in any repo''))
        \<and> resolve_name mirror_main ''missing'' False = Inr {}" by blast
  moreover from resolve_name_strictness [OF b, of "''base''" True] yes
  have "\<exists>S. S \<noteq> {} \<and> resolve_name mirror_main ''base'' True = Inr S" by blast
  ultimately show ?thesis using b by auto
qed

text \<open>
  Claim C3.  In one catalog the three match kinds are tried in the order package
  name, provides index, group index, and the first that applies decides
  (\<open>find_in_repo\<close> yields the specification's match set).  So on every mirror that
  \<^verbatim>\<open>Mirror.__init__\<close> builds, when a catalog holds a package literally named \<open>foo\<close>,
  the match set of \<open>foo\<close> in that catalog is \<open>foo\<close> alone, and of the objects of that
  catalog \<^verbatim>\<open>resolve_name\<close> returns this package only: no package the catalog holds
  under another name, a provider of \<open>foo\<close> included, is in the result.
\<close>

theorem resolve_name_prefers_package:
  assumes "Mirror_init db h0 repo_names srv archs = Inr (m, h)"
    and "(k, r) \<in> set (repos m)"
    and "map_of (packages r) foo = Some i"
  shows "(\<forall>n. find_in_repo r n None = spec_match_set r n)
         \<and> find_in_repo r foo found = Some [foo]
         \<and> (\<exists>S. resolve_name m foo important = Inr S \<and> S \<inter> oids r = {i}
              \<and> (\<forall>q j. q \<noteq> foo \<and> map_of (packages r) q = Some j \<longrightarrow> j \<notin> S))"
proof -
  note ok = Mirror_init_ok [OF assms(1)]
  have repos_ok: "\<forall>r \<in> snd ` set (repos m). repo_ok r"
    using ok by (simp add: mirror_ok_def)
  have rin: "r \<in> set (map snd (repos m))" using assms(2) by force
  have key: "foo \<in> fst ` set (packages r)" using assms(3) map_of_is_Some by fast
  have first: "\<forall>n. find_in_repo r n None = spec_match_set r n"
    by (simp add: find_in_repo_spec split: option.splits)
  have second: "find_in_repo r foo found = Some [foo]"
    using key by (simp add: find_in_repo_def)
  have c: "spec_contribution r foo = {i}"
    using key assms(3) by (auto simp: spec_contribution_def spec_match_set_def)
  define S where "S = spec_resolveName m foo"
  have "i \<in> S" using c rin unfolding S_def spec_resolveName_def by blast
  then have res: "resolve_name m foo important = Inr S"
    using resolve_name_spec [OF repos_ok, of foo important] unfolding S_def by auto
  have dis: "disjoint_oids (map snd (repos m))" using ok by (simp add: mirror_ok_def)
  have inter: "S \<inter> oids r = {i}"
  proof
    show "{i} \<subseteq> S \<inter> oids r"
      using \<open>i \<in> S\<close> c spec_contribution_subset [of r foo] by auto
    show "S \<inter> oids r \<subseteq> {i}"
    proof
      fix j assume j: "j \<in> S \<inter> oids r"
      then obtain r' where r': "r' \<in> set (map snd (repos m))" and jr': "j \<in> spec_contribution r' foo"
        unfolding S_def spec_resolveName_def by blast
      show "j \<in> {i}"
      proof (cases "r' = r")
        case True
        with jr' c show ?thesis by simp
      next
        case False
        from disjoint_oids_mem [OF dis r' rin False] have "oids r' \<inter> oids r = {}" .
        moreover have "j \<in> oids r'" using jr' spec_contribution_subset [of r' foo] by blast
        ultimately show ?thesis using j by blast
      qed
    qed
  qed
  have others: "\<forall>q j. q \<noteq> foo \<and> map_of (packages r) q = Some j \<longrightarrow> j \<notin> S"
  proof (intro allI impI)
    fix q j assume a: "q \<noteq> foo \<and> map_of (packages r) q = Some j"
    then have qj: "(q, j) \<in> set (packages r)" by (auto dest: map_of_SomeD)
    have fi: "(foo, i) \<in> set (packages r)" using assms(3) by (rule map_of_SomeD)
    have "repo_ok r" using repos_ok assms(2) by force
    then have d: "distinct (map snd (packages r))" by (simp add: repo_ok_def)
    have "j \<noteq> i"
    proof
      assume "j = i"
      with qj fi d have "q = foo" by (simp add: distinct_snd_same_key)
      with a show False by simp
    qed
    moreover have "j \<in> oids r" using qj by (force simp: oids_def)
    ultimately show "j \<notin> S" using inter by blast
  qed
  from res inter others
  have "\<exists>S. resolve_name m foo important = Inr S \<and> S \<inter> oids r = {i}
              \<and> (\<forall>q j. q \<noteq> foo \<and> map_of (packages r) q = Some j \<longrightarrow> j \<notin> S)"
    by (intro exI [of _ S] conjI)
  with first second show ?thesis by (intro conjI)
qed

text \<open>
  An instance of C3 on the mirror built from \<open>db_main\<close>: the catalog \<^verbatim>\<open>core\<close> holds
  the package \<^verbatim>\<open>sh\<close> (object 2) and the package \<^verbatim>\<open>bash\<close> (object 0), which provides
  \<^verbatim>\<open>sh\<close>; the result for \<^verbatim>\<open>sh\<close> is object 2 alone.
\<close>

theorem resolve_name_prefers_package_witness:
  "\<exists>m h. Mirror_init db_main heap0 [''core'', ''extra''] ''http://mirror/$repo/os/$arch''
            [''x86_64''] = Inr (m, h)
         \<and> map_of (provides (snd (hd (repos m)))) ''sh'' = Some [''bash'']
         \<and> map_of (packages (snd (hd (repos m)))) ''bash'' = Some 0
         \<and> (\<exists>S. resolve_name m ''sh'' True = Inr S \<and> 2 \<in> S \<and> 0 \<notin> S)"
proof -
  from built_main obtain h where
    b: "Mirror_init db_main heap0 [''core'', ''extra''] ''http://mirror/$repo/os/$arch''
          [''x86_64''] = Inr (mirror_main, h)" by blast
  have mem: "((''core'', ''x86_64''), core_main) \<in> set (repos mirror_main)"
    by (simp add: mirror_main_def)
  have sh: "map_of (packages core_main) ''sh'' = Some 2" by (simp add: core_main_def)
  from resolve_name_prefers_package [OF b mem sh, of None True]
  have "\<exists>S. resolve_name mirror_main ''sh'' True = Inr S \<and> S \<inter> oids core_main = {2}
          \<and> (\<forall>q j. q \<noteq> ''sh'' \<and> map_of (packages core_main) q = Some j \<longrightarrow> j \<notin> S)"
    by (elim conjE)
  then obtain S where
    res: "resolve_name mirror_main ''sh'' True = Inr S"
    and inter: "S \<inter> oids core_main = {2}"
    and others: "\<forall>q j. q \<noteq> ''sh'' \<and> map_of (packages core_main) q = Some j \<longrightarrow> j \<notin> S"
    by (elim exE conjE)
  have "map_of (packages core_main) ''bash'' = Some 0" by (simp add: core_main_def)
  with others [rule_format, of "''bash''" 0] have "0 \<notin> S" by simp
  moreover from inter have "2 \<in> S" by blast
  moreover have "map_of (provides (snd (hd (repos mirror_main)))) ''sh'' = Some [''bash'']"
    by (simp add: mirror_main_def core_main_def)
  moreover have "map_of (packages (snd (hd (repos mirror_main)))) ''bash'' = Some 0"
    by (simp add: mirror_main_def core_main_def)
  ultimately show ?thesis using b res by blast
qed

text \<open>
  Claim C10.  When \<^verbatim>\<open>initialize_db\<close> completes on a catalog whose two indices were
  empty (as \<^verbatim>\<open>Repo.__init__\<close> leaves them), every package name in a value sequence of
  the groups index or of the provides index is a key of the catalog's \<open>packages\<close>, and
  looking the sequence up in \<open>packages\<close> succeeds.  Consequently, on every mirror that
  \<^verbatim>\<open>Mirror.__init__\<close> builds, \<^verbatim>\<open>resolve_name\<close> never raises \<^verbatim>\<open>KeyError\<close>.
\<close>

theorem index_names_are_package_keys:
  "(initialize_db db self h = Inr (self', h') \<and> groups self = [] \<and> provides self = []
      \<longrightarrow> (\<forall>(g, ns) \<in> set (groups self') \<union> set (provides self').
             set ns \<subseteq> fst ` set (packages self')
             \<and> (\<exists>is. lookup_all (packages self') ns = Inr is)))
   \<and> (Mirror_init db h0 repo_names srv archs = Inr (m, h1)
      \<longrightarrow> (\<forall>pkgname important k. resolve_name m pkgname important \<noteq> Inl (KeyError k)))"
proof -
  have one: "\<forall>(g, ns) \<in> set (groups self') \<union> set (provides self').
             set ns \<subseteq> fst ` set (packages self')
             \<and> (\<exists>is. lookup_all (packages self') ns = Inr is)"
    if init: "initialize_db db self h = Inr (self', h')"
      and empty: "groups self = []" "provides self = []"
  proof -
    from initialize_db_inv [OF init] empty
    have g: "index_ok (fst ` set (packages self')) (groups self')"
      and p: "index_ok (fst ` set (packages self')) (provides self')"
      by (simp_all add: index_ok_def)
    show ?thesis
    proof (clarify)
      fix g ns assume "(g, ns) \<in> set (groups self') \<union> set (provides self')"
      with g p have sub: "set ns \<subseteq> fst ` set (packages self')"
        unfolding index_ok_def by blast
      from lookup_all_ok [OF sub] sub
      show "set ns \<subseteq> fst ` set (packages self')
             \<and> (\<exists>is. lookup_all (packages self') ns = Inr is)" by blast
    qed
  qed
  have two: "\<forall>pkgname important k. resolve_name m pkgname important \<noteq> Inl (KeyError k)"
    if built: "Mirror_init db h0 repo_names srv archs = Inr (m, h1)"
  proof -
    have "\<forall>r \<in> snd ` set (repos m). repo_ok r"
      using Mirror_init_ok [OF built] by (simp add: mirror_ok_def)
    from resolve_name_spec [OF this] show ?thesis by simp
  qed
  from one two show ?thesis by blast
qed

text \<open>
  An instance of C10: the catalog \<^verbatim>\<open>core\<close> built from \<open>db_main\<close>, whose group
  \<^verbatim>\<open>base\<close> and provided name \<^verbatim>\<open>sh\<close> list keys of \<open>packages\<close> only.
\<close>

theorem index_names_are_package_keys_witness:
  "\<exists>r h. initialize_db db_main
            \<lparr>name = ''core'', arch = ''x86_64'', local_path = ''core/os/x86_64'',
             server = ''http://mirror/core/os/x86_64'',
             packages = [], groups = [], provides = [], mirrored_packages = []\<rparr> heap0
            = Inr (r, h)
         \<and> groups r = [(''base'', [''bash'', ''glibc''])]
         \<and> provides r = [(''sh'', [''bash''])]
         \<and> set [''bash'', ''glibc''] \<subseteq> fst ` set (packages r)
         \<and> (\<exists>is. lookup_all (packages r) [''bash'', ''glibc''] = Inr is)"
proof -
  let ?self = "\<lparr>name = ''core'', arch = ''x86_64'', local_path = ''core/os/x86_64'',
             server = ''http://mirror/core/os/x86_64'',
             packages = [], groups = [], provides = [], mirrored_packages = []\<rparr>"
  have "\<exists>h. initialize_db db_main ?self heap0 = Inr (core_main, h)"
    by (simp add: model_defs db_main_def heap0_def core_main_def)
  then obtain h where i: "initialize_db db_main ?self heap0 = Inr (core_main, h)" ..
  have g: "groups core_main = [(''base'', [''bash'', ''glibc''])]"
    and p: "provides core_main = [(''sh'', [''bash''])]"
    by (simp_all add: core_main_def)
  from index_names_are_package_keys [of db_main ?self heap0 core_main h] i
  have "\<forall>(g, ns) \<in> set (groups core_main) \<union> set (provides core_main).
             set ns \<subseteq> fst ` set (packages core_main)
             \<and> (\<exists>is. lookup_all (packages core_main) ns = Inr is)" by simp
  then have "set [''bash'', ''glibc''] \<subseteq> fst ` set (packages core_main)
             \<and> (\<exists>is. lookup_all (packages core_main) [''bash'', ''glibc''] = Inr is)"
    unfolding g by simp
  with i g p show ?thesis by blast
qed

section \<open>Claims about the dependency closure\<close>

text \<open>
  Claim C4.  For every mirror, store, seed list and flag, and every faithful order
  of set iteration, \<^verbatim>\<open>resolve_deps\<close> returns (a tuple or an exception): the loop
  terminates.  A returned tuple lists, each once, seeds and packages of the catalogs
  only, which is the bound on the visited set.  In particular, when the only
  dependency of \<open>a\<close> resolves to \<open>b\<close> and the only dependency of \<open>b\<close> resolves to
  \<open>a\<close>, \<^verbatim>\<open>resolve_deps\<close> on the seed \<open>a\<close> returns a tuple whose elements are
  exactly \<open>a\<close> and \<open>b\<close>.
\<close>

theorem resolve_deps_terminates:
  "(faithful ord \<longrightarrow>
      (\<exists>r. resolve_deps ord m h pkgs optdepends = Some r
         \<and> (\<forall>ks. r = Inr ks \<longrightarrow> set ks \<subseteq> set pkgs \<union> all_oids m \<and> distinct ks)))
   \<and> (faithful ord
       \<and> resolve_name m na True = Inr {a} \<and> resolve_name m nb True = Inr {b}
       \<and> objs h a ''depends'' = PTuple [nb] \<and> objs h b ''depends'' = PTuple [na]
      \<longrightarrow> resolve_deps ord m h [a] False = Some (Inr (ord ([], {a, b}) {a, b}))
          \<and> set (ord ([], {a, b}) {a, b}) = {a, b})"
proof -
  have total: "\<exists>r. resolve_deps ord m h pkgs optdepends = Some r
         \<and> (\<forall>ks. r = Inr ks \<longrightarrow> set ks \<subseteq> set pkgs \<union> all_oids m \<and> distinct ks)"
    if "faithful ord"
    using resolve_deps_total [OF that, of m h pkgs optdepends] by blast
  have cycle: "resolve_deps ord m h [a] False = Some (Inr (ord ([], {a, b}) {a, b}))
          \<and> set (ord ([], {a, b}) {a, b}) = {a, b}"
    if f: "faithful ord"
      and ra: "resolve_name m na True = Inr {a}" and rb: "resolve_name m nb True = Inr {b}"
      and da: "objs h a ''depends'' = PTuple [nb]" and db: "objs h b ''depends'' = PTuple [na]"
  proof -
    have va: "visit ord m h False a (insert a {}) [] = Inr [b]"
      using da rb faithful_single [OF f] by (simp add: visit_def iter_def)
    have step1: "resolve_deps_loop ord m h False [a] {} = resolve_deps_loop ord m h False [b] {a}"
      using resolve_deps_loop_visit [of a "{}" ord m h False "[]" "[b]"] va by simp
    have loop: "resolve_deps_loop ord m h False [b] {a} = Some (Inr {a, b})"
    proof (cases "b = a")
      case True
      then show ?thesis
        by (simp add: resolve_deps_loop_known resolve_deps_loop_Nil)
    next
      case False
      have vb: "visit ord m h False b (insert b {a}) [] = Inr [a]"
        using db ra faithful_single [OF f] by (simp add: visit_def iter_def)
      have "resolve_deps_loop ord m h False [b] {a}
              = resolve_deps_loop ord m h False [a] (insert b {a})"
        using resolve_deps_loop_visit [of b "{a}" ord m h False "[]" "[a]"] vb False by simp
      also have "\<dots> = resolve_deps_loop ord m h False [] (insert b {a})"
        by (simp add: resolve_deps_loop_known)
      also have "\<dots> = Some (Inr (insert b {a}))" by (rule resolve_deps_loop_Nil)
      finally show ?thesis by (simp add: insert_commute)
    qed
    have "resolve_deps ord m h [a] False = Some (Inr (ord ([], {a, b}) {a, b}))"
      using step1 loop by (simp add: resolve_deps_def)
    moreover have "set (ord ([], {a, b}) {a, b}) = {a, b}"
      using f by (simp add: faithful_set)
    ultimately show ?thesis by simp
  qed
  from total cycle show ?thesis by blast
qed

text \<open>
  An instance of C4: in the mirror built from \<open>db_cycle\<close> the package \<^verbatim>\<open>a\<close>
  (object 0) depends on \<^verbatim>\<open>b\<close> (object 1) and \<^verbatim>\<open>b\<close> on \<^verbatim>\<open>a\<close>; the closure of
  \<^verbatim>\<open>a\<close> is returned and holds exactly the two.
\<close>

theorem resolve_deps_terminates_witness:
  "\<exists>m h. Mirror_init db_cycle heap0 [''core''] ''http://mirror/$repo/os/$arch'' [''x86_64'']
            = Inr (m, h)
         \<and> (\<exists>ks. resolve_deps ascending m h [0] False = Some (Inr ks) \<and> set ks = {0, 1})"
proof -
  from built_cycle obtain h where
    b: "Mirror_init db_cycle heap0 [''core''] ''http://mirror/$repo/os/$arch'' [''x86_64'']
          = Inr (mirror_cycle, h)"
    and d0: "objs h 0 ''depends'' = PTuple [''b'']"
    and d1: "objs h 1 ''depends'' = PTuple [''a'']" by blast
  have ra: "resolve_name mirror_cycle ''a'' True = Inr {0}"
    by (simp add: resolve_name_def mirror_cycle_def find_in_repo_def)
  have rb: "resolve_name mirror_cycle ''b'' True = Inr {1}"
    by (simp add: resolve_name_def mirror_cycle_def find_in_repo_def)
  from resolve_deps_terminates [of ascending mirror_cycle h "[0]" False "''a''" 0 "''b''" 1]
    faithful_ascending ra rb d0 d1
  have "resolve_deps ascending mirror_cycle h [0] False
          = Some (Inr (ascending ([], {0, 1}) {0, 1}))
        \<and> set (ascending ([], {0, 1}) {0, 1}) = {0, 1}" by blast
  with b show ?thesis by blast
qed

text \<open>
  Claim C5.  For every seed list and either value of the flag, \<^verbatim>\<open>resolve_deps\<close>
  returns, and when it returns a tuple (rather than raising), every seed is an element
  of it.
\<close>

theorem resolve_deps_contains_seeds:
  "faithful ord \<longrightarrow>
     (\<exists>r. resolve_deps ord m h pkgs optdepends = Some r
        \<and> (\<forall>ks. r = Inr ks \<longrightarrow> set pkgs \<subseteq> set ks))"
proof
  assume "faithful ord"
  from resolve_deps_total [OF this, of m h pkgs optdepends]
  show "\<exists>r. resolve_deps ord m h pkgs optdepends = Some r
        \<and> (\<forall>ks. r = Inr ks \<longrightarrow> set pkgs \<subseteq> set ks)" by blast
qed

text \<open>
  An instance of C5: in the mirror built from \<open>db_main\<close>, the closure of the seed
  \<^verbatim>\<open>glibc\<close> (object 1, without dependencies) is returned and is the seed itself.
\<close>

theorem resolve_deps_contains_seeds_witness:
  "\<exists>m h. Mirror_init db_main heap0 [''core'', ''extra''] ''http://mirror/$repo/os/$arch''
            [''x86_64''] = Inr (m, h)
         \<and> (\<exists>ks. resolve_deps ascending m h [1] True = Some (Inr ks) \<and> set [1] \<subseteq> set ks)"
proof -
  from built_main obtain h where
    b: "Mirror_init db_main heap0 [''core'', ''extra''] ''http://mirror/$repo/os/$arch''
          [''x86_64''] = Inr (mirror_main, h)"
    and d1: "objs h 1 ''depends'' = PTuple []"
    and o1: "objs h 1 ''optdepends'' = PTuple []" by blast
  have v: "visit ascending mirror_main h True 1 (insert 1 {}) [] = Inr []"
    using d1 o1 by (simp add: visit_def iter_def)
  have "resolve_deps_loop ascending mirror_main h True [1] {} = Some (Inr {1})"
    using resolve_deps_loop_visit [of 1 "{}" ascending mirror_main h True "[]" "[]"] v
    by (simp add: resolve_deps_loop_Nil)
  then have r: "resolve_deps ascending mirror_main h [1] True = Some (Inr [1])"
    by (simp add: resolve_deps_def faithful_single [OF faithful_ascending])
  from resolve_deps_contains_seeds [of ascending mirror_main h "[1]" True] faithful_ascending
  obtain r' where "resolve_deps ascending mirror_main h [1] True = Some r'"
    and "\<forall>ks. r' = Inr ks \<longrightarrow> set [1] \<subseteq> set ks" by blast
  with r have "\<exists>ks. resolve_deps ascending mirror_main h [1] True = Some (Inr ks)
                  \<and> set [1] \<subseteq> set ks" by auto
  with b show ?thesis by blast
qed

text \<open>
  Claim C6.  Let \<open>d\<close> be a name that is a key in no dictionary of any catalog, and
  let the order of set iteration be faithful.  Then the lenient resolution of \<open>d\<close>
  returns the empty set and the strict one raises \<^verbatim>\<open>ValueError\<close>; in the loop over
  \<^verbatim>\<open>optdepends\<close> the name \<open>d\<close> is skipped (the loop behaves as if \<open>d\<close> were not
  listed); in the loop over \<^verbatim>\<open>depends\<close> a list that holds \<open>d\<close> makes the loop, and
  with it the whole traversal from a seed with such a list, end in an exception.  A
  seed without dependencies whose only optional dependency is \<open>d\<close> has the closure
  that is the seed alone, and every element of any returned closure is a seed or a
  package that some catalog holds under a name other than \<open>d\<close>.
\<close>

theorem optional_dependencies_tolerated:
  assumes "\<forall>r \<in> snd ` set (repos m). \<not> Repo_contains r d" and "faithful ord"
  shows "resolve_name m d False = Inr {}
         \<and> resolve_name m d True = Inl (ValueError (d @ '' not found in any repo''))
         \<and> enqueue ord m False known (xs @ d # ys) q = enqueue ord m False known (xs @ ys) q
         \<and> (d \<in> set ds \<longrightarrow> (\<exists>e. enqueue ord m True known ds q = Inl e))
         \<and> (objs h p ''depends'' = PTuple ds \<and> d \<in> set ds
              \<longrightarrow> (\<exists>e. resolve_deps ord m h (p # rest) optdepends = Some (Inl e)))
         \<and> (objs h p ''depends'' = PTuple [] \<and> objs h p ''optdepends'' = PTuple [d]
              \<longrightarrow> resolve_deps ord m h [p] True = Some (Inr [p]))
         \<and> (\<forall>ks. resolve_deps ord m h pkgs optdepends = Some (Inr ks)
              \<longrightarrow> (\<forall>i \<in> set ks. i \<in> set pkgs
                     \<or> (\<exists>r \<in> snd ` set (repos m). \<exists>n. n \<noteq> d \<and> (n, i) \<in> set (packages r))))"
proof -
  note f = assms(2)
  have lenient: "resolve_name m d False = Inr {}"
    and strict: "resolve_name m d True = Inl (ValueError (d @ '' not found in any repo''))"
    using resolve_name_unmatched [OF assms(1)] by simp_all
  have skip: "enqueue ord m False known (xs @ d # ys) q = enqueue ord m False known (xs @ ys) q"
  proof (induction xs arbitrary: q)
    case Nil
    show ?case using lenient faithful_empty [OF f] by simp
  next
    case (Cons x xs)
    show ?case
    proof (cases "resolve_name m x False")
      case (Inl e)
      then show ?thesis by simp
    next
      case (Inr S)
      then show ?thesis using Cons.IH by simp
    qed
  qed
  have abort: "\<exists>e. enqueue ord m True kn ds q = Inl e" if "d \<in> set ds" for ds q kn
    using that
  proof (induction ds arbitrary: q)
    case Nil
    then show ?case by simp
  next
    case (Cons x xs)
    show ?case
    proof (cases "resolve_name m x True")
      case (Inl e)
      then show ?thesis by simp
    next
      case (Inr S)
      with strict have "x \<noteq> d" by auto
      with Cons.prems have "d \<in> set xs" by simp
      from Cons.IH [OF this] Inr show ?thesis by simp
    qed
  qed
  have hard: "\<exists>e. resolve_deps ord m h (p # rest) optdepends = Some (Inl e)"
    if dep: "objs h p ''depends'' = PTuple ds" and mem: "d \<in> set ds"
  proof -
    from abort [OF mem, of "insert p {}" rest] obtain e where
      "enqueue ord m True (insert p {}) ds rest = Inl e" by blast
    then have "visit ord m h optdepends p (insert p {}) rest = Inl e"
      using dep by (simp add: visit_def iter_def)
    then have "resolve_deps_loop ord m h optdepends (p # rest) {} = Some (Inl e)"
      by (simp add: resolve_deps_loop_fail)
    then show ?thesis by (simp add: resolve_deps_def)
  qed
  have alone: "resolve_deps ord m h [p] True = Some (Inr [p])"
    if dep: "objs h p ''depends'' = PTuple []" and opt: "objs h p ''optdepends'' = PTuple [d]"
  proof -
    have "visit ord m h True p (insert p {}) [] = Inr []"
      using dep opt lenient faithful_empty [OF f] by (simp add: visit_def iter_def)
    then have "resolve_deps_loop ord m h True [p] {} = Some (Inr {p})"
      using resolve_deps_loop_visit [of p "{}" ord m h True "[]" "[]"]
      by (simp add: resolve_deps_loop_Nil)
    then show ?thesis by (simp add: resolve_deps_def faithful_single [OF f])
  qed
  have members: "\<forall>i \<in> set ks. i \<in> set pkgs
                     \<or> (\<exists>r \<in> snd ` set (repos m). \<exists>n. n \<noteq> d \<and> (n, i) \<in> set (packages r))"
    if res: "resolve_deps ord m h pkgs optdepends = Some (Inr ks)" for ks
  proof
    fix i assume i: "i \<in> set ks"
    from resolve_deps_total [OF f, of m h pkgs optdepends] res
    have "set ks \<subseteq> set pkgs \<union> all_oids m" by auto
    with i have "i \<in> set pkgs \<or> i \<in> all_oids m" by blast
    then show "i \<in> set pkgs
                     \<or> (\<exists>r \<in> snd ` set (repos m). \<exists>n. n \<noteq> d \<and> (n, i) \<in> set (packages r))"
    proof
      assume "i \<in> set pkgs"
      then show ?thesis ..
    next
      assume "i \<in> all_oids m"
      then obtain r where r: "r \<in> snd ` set (repos m)" and "i \<in> oids r"
        unfolding all_oids_def by blast
      then obtain x where "x \<in> set (packages r)" and "i = snd x"
        unfolding oids_def by blast
      then have "(fst x, i) \<in> set (packages r)" by simp
      then obtain n where n: "(n, i) \<in> set (packages r)" ..
      from assms(1) r have "\<not> Repo_contains r d" by blast
      then have "d \<notin> fst ` set (packages r)" by (simp add: Repo_contains_def)
      with n have "n \<noteq> d" by force
      with r n show ?thesis by blast
    qed
  qed
  from lenient strict skip abort hard alone members show ?thesis by blast
qed

text \<open>
  An instance of C6 on the mirror built from \<open>db_main\<close>: \<^verbatim>\<open>nonexistent-pkg\<close>, an
  optional dependency of \<^verbatim>\<open>bash\<close>, is a key in no catalog; its lenient resolution is
  empty, and the closure of \<^verbatim>\<open>bash\<close> (object 0) with optional dependencies is
  \<^verbatim>\<open>bash\<close> and \<^verbatim>\<open>glibc\<close> (object 1).
\<close>

theorem optional_dependencies_tolerated_witness:
  "\<exists>m h. Mirror_init db_main heap0 [''core'', ''extra''] ''http://mirror/$repo/os/$arch''
            [''x86_64''] = Inr (m, h)
         \<and> objs h 0 ''optdepends'' = PTuple [''nonexistent-pkg'']
         \<and> resolve_name m ''nonexistent-pkg'' False = Inr {}
         \<and> resolve_name m ''nonexistent-pkg'' True
             = Inl (ValueError ''nonexistent-pkg not found in any repo'')
         \<and> resolve_deps ascending m h [0] True = Some (Inr [0, 1])"
proof -
  from built_main obtain h where
    b: "Mirror_init db_main heap0 [''core'', ''extra''] ''http://mirror/$repo/os/$arch''
          [''x86_64''] = Inr (mirror_main, h)"
    and d0: "objs h 0 ''depends'' = PTuple [''glibc'']"
    and o0: "objs h 0 ''optdepends'' = PTuple [''nonexistent-pkg'']"
    and d1: "objs h 1 ''depends'' = PTuple []"
    and o1: "objs h 1 ''optdepends'' = PTuple []" by blast
  have no: "\<forall>r \<in> snd ` set (repos mirror_main). \<not> Repo_contains r ''nonexistent-pkg''"
    by (simp add: mirror_main_def core_main_def extra_main_def Repo_contains_def)
  note t = optional_dependencies_tolerated [OF no faithful_ascending,
      of "{0}" "[]" "[]" "[1]" "[]" h 0 "[]" True "[0]"]
  from t have lenient: "resolve_name mirror_main ''nonexistent-pkg'' False = Inr {}"
    and strict: "resolve_name mirror_main ''nonexistent-pkg'' True
                   = Inl (ValueError (''nonexistent-pkg'' @ '' not found in any repo''))"
    and skip: "enqueue ascending mirror_main False {0} ([] @ ''nonexistent-pkg'' # []) [1]
                 = enqueue ascending mirror_main False {0} ([] @ []) [1]"
    by blast+
  have g: "resolve_name mirror_main ''glibc'' True = Inr {1}"
    by (simp add: resolve_name_def mirror_main_def core_main_def extra_main_def find_in_repo_def)
  have one: "ascending c {1} = [1]" for c
    by (rule faithful_single [OF faithful_ascending])
  have v0: "visit ascending mirror_main h True 0 (insert 0 {}) [] = Inr [1]"
    using d0 o0 g one skip by (simp add: visit_def iter_def)
  have v1: "visit ascending mirror_main h True 1 (insert 1 {0}) [] = Inr []"
    using d1 o1 by (simp add: visit_def iter_def)
  have "resolve_deps_loop ascending mirror_main h True [0] {}
          = resolve_deps_loop ascending mirror_main h True [1] {0}"
    using resolve_deps_loop_visit [of 0 "{}" ascending mirror_main h True "[]" "[1]"] v0 by simp
  also have "\<dots> = resolve_deps_loop ascending mirror_main h True [] (insert 1 {0})"
    using resolve_deps_loop_visit [of 1 "{0}" ascending mirror_main h True "[]" "[]"] v1 by simp
  also have "\<dots> = Some (Inr (insert 1 {0}))" by (rule resolve_deps_loop_Nil)
  finally have "resolve_deps ascending mirror_main h [0] True
                  = Some (Inr (sorted_list_of_set (insert 1 {0::nat})))"
    by (simp add: resolve_deps_def ascending_def)
  moreover have "sorted_list_of_set (insert 1 {0::nat}) = [0, 1]"
    by (simp add: sorted_list_of_set_insert_remove)
  ultimately have "resolve_deps ascending mirror_main h [0] True = Some (Inr [0, 1])" by simp
  with b o0 lenient strict show ?thesis by auto
qed

end
